theory Spec2Isabelle
  imports Main "HOL-Library.Sublist"
begin

section \<open>Strings\<close>

text \<open>
  A Python \<open>str\<close> is modelled as a \<^typ>\<open>string\<close>, a list of 8-bit characters.
  The model is exact on ASCII text; the only non-ASCII text the program itself
  produces is the arrow of its log messages, which is held in UTF-8.
\<close>

definition backslash :: char where
  "backslash = CHR 0x5C"

definition newline :: char where
  "newline = CHR 0x0A"

text \<open>
  \<open>str.isspace\<close> on one character, which is also what \<open>\<bsol>s\<close> matches in a
  \<open>str\<close> pattern: tab, line feed, vertical tab, form feed, carriage return, the four
  separators \<open>0x1C\<close> to \<open>0x1F\<close>, and the space.
\<close>

definition is_space :: "char \<Rightarrow> bool" where
  "is_space c = (c \<in> set [CHR 0x09, CHR 0x0A, CHR 0x0B, CHR 0x0C, CHR 0x0D,
                           CHR 0x1C, CHR 0x1D, CHR 0x1E, CHR 0x1F, CHR 0x20])"

text \<open>
  Case folding of one character, as \<open>re.IGNORECASE\<close> compares ASCII letters: the code
  of the character, with the upper-case letters moved onto the lower-case ones.
\<close>

definition casefold :: "char \<Rightarrow> nat" where
  "casefold c = (let n = of_char c in if 65 \<le> n \<and> n \<le> 90 then n + 32 else n)"

section \<open>The code safety gate\<close>

subsection \<open>The regular expressions of the deny-list\<close>

text \<open>
  The deny-list is a list of pattern strings. Two shapes occur in it beside plain
  text: \<open>name\<bsol>(\<close>, a call of \<open>name\<close>, and \<open>import\<bsol>s+module\<close>.
\<close>

definition call :: "string \<Rightarrow> string" where
  "call f = f @ [backslash] @ ''(''"

definition import :: "string \<Rightarrow> string" where
  "import m = ''import'' @ [backslash] @ ''s+'' @ m"

definition DANGEROUS_PATTERNS :: "string list" where
  "DANGEROUS_PATTERNS =
    [import ''os'', import ''subprocess'', import ''sys'',
     call ''open'', call ''eval'', call ''exec'', ''__import__'',
     call ''globals'', call ''locals'', call ''compile'', call ''file'',
     call ''input'', call ''raw_input'', call ''help'', call ''vars'',
     call ''dir'', call ''type'', call ''getattr'', call ''setattr'',
     call ''delattr'', call ''hasattr'', call ''property'', call ''super'',
     call ''staticmethod'', call ''classmethod'', call ''issubclass'',
     call ''isinstance'', call ''callable'', call ''hash'', call ''id'',
     call ''len'', call ''abs'', call ''all'', call ''any'', call ''bin'',
     call ''bool'', call ''chr'', call ''complex'', call ''dict'',
     call ''divmod'', call ''enumerate'', call ''filter'', call ''float'',
     call ''format'', call ''frozenset'', call ''hex'', call ''int'',
     call ''list'', call ''map'', call ''max'', call ''min'', call ''next'',
     call ''oct'', call ''ord'', call ''pow'', call ''print'', call ''range'',
     call ''repr'', call ''reversed'', call ''round'', call ''set'',
     call ''slice'', call ''sorted'', call ''str'', call ''sum'',
     call ''tuple'', call ''zip'']"

text \<open>
  A compiled pattern is a sequence of items: a literal character, compared without
  regard to case, or \<open>\<bsol>s+\<close>, one or more whitespace characters.
\<close>

datatype rx = Lit char | Spaces

text \<open>
  Compilation of the pattern syntax that the deny-list uses: \<open>\<bsol>s+\<close>, a backslash
  followed by the character it escapes, and ordinary characters.
\<close>

fun re_compile :: "string \<Rightarrow> rx list" where
  "re_compile (b # s # p # r) =
     (if b = backslash \<and> s = CHR ''s'' \<and> p = CHR ''+'' then Spaces # re_compile r
      else if b = backslash then Lit s # re_compile (p # r)
      else Lit b # re_compile (s # p # r))"
| "re_compile [b, s] = (if b = backslash then [Lit s] else [Lit b, Lit s])"
| "re_compile [b] = [Lit b]"
| "re_compile [] = []"

text \<open>Does the compiled pattern match a prefix of the text?\<close>

fun match_here :: "rx list \<Rightarrow> string \<Rightarrow> bool" where
  "match_here [] s = True"
| "match_here (Lit c # r) [] = False"
| "match_here (Lit c # r) (x # s) = (casefold x = casefold c \<and> match_here r s)"
| "match_here (Spaces # r) [] = False"
| "match_here (Spaces # r) (x # s) =
     (is_space x \<and> (match_here (Spaces # r) s \<or> match_here r s))"

text \<open>\<open>re.search\<close>: does the compiled pattern match at some position of the text?\<close>

fun search_rx :: "rx list \<Rightarrow> string \<Rightarrow> bool" where
  "search_rx p [] = match_here p []"
| "search_rx p (x # s) = (match_here p (x # s) \<or> search_rx p s)"

text \<open>\<open>re.search(pattern, code, re.IGNORECASE)\<close> read as a truth value.\<close>

definition re_search :: "string \<Rightarrow> string \<Rightarrow> bool" where
  "re_search pattern code = search_rx (re_compile pattern) code"

subsection \<open>\<open>check_code_safety\<close>\<close>

definition blocked :: "string \<Rightarrow> string" where
  "blocked pattern = ''Blocked dangerous pattern: '' @ pattern"

text \<open>The loop over the deny-list, with the list \<open>issues\<close> it appends to.\<close>

fun safety_loop :: "string list \<Rightarrow> string \<Rightarrow> string list \<Rightarrow> string list" where
  "safety_loop [] code issues = issues"
| "safety_loop (p # ps) code issues =
     safety_loop ps code (if re_search p code then issues @ [blocked p] else issues)"

definition check_code_safety :: "string \<Rightarrow> bool \<times> string list" where
  "check_code_safety code =
     (let issues = safety_loop DANGEROUS_PATTERNS code [] in (length issues = 0, issues))"

section \<open>Tables and the schema normalizer\<close>

text \<open>
  A table (a pandas \<open>DataFrame\<close>) is the ordered list of its named columns, each with
  its cell values. Column names are pairwise distinct, as \<open>pandas.read_csv\<close> makes them.
\<close>

type_synonym 'v table = "(string \<times> 'v list) list"

definition columns :: "'v table \<Rightarrow> string list" where
  "columns t = map fst t"

definition wf_table :: "'v table \<Rightarrow> bool" where
  "wf_table t = distinct (columns t)"

text \<open>\<open>df[name]\<close>: the values of a column, \<open>None\<close> where pandas raises \<open>KeyError\<close>.\<close>

definition getitem :: "'v table \<Rightarrow> string \<Rightarrow> 'v list option" where
  "getitem t name = map_of t name"

text \<open>
  \<open>df[name] = values\<close>: an existing column is overwritten where it stands, a new one
  is added as the last column.
\<close>

fun setitem :: "'v table \<Rightarrow> string \<Rightarrow> 'v list \<Rightarrow> 'v table" where
  "setitem [] name vals = [(name, vals)]"
| "setitem ((n, vs) # t) name vals =
     (if n = name then (n, vals) # t else (n, vs) # setitem t name vals)"

text \<open>The alias dictionary, in the order in which Python iterates over it.\<close>

definition COLUMN_ALIASES :: "(string \<times> string) list" where
  "COLUMN_ALIASES =
    [(''Squad'', ''Team''), (''Team Name'', ''Team''), (''Squad Name'', ''Team''),
     (''Club'', ''Team''), (''Club Name'', ''Team''),
     (''Player Name'', ''Player''), (''Player_Name'', ''Player''), (''Name'', ''Player''),
     (''Full Name'', ''Player''), (''playerName'', ''Player''),
     (''Position'', ''Pos''), (''Player Position'', ''Pos''), (''Role'', ''Pos''),
     (''X'', ''x''), (''Y'', ''y''), (''End X'', ''end_x''), (''End Y'', ''end_y''),
     (''Start X'', ''start_x''), (''Start Y'', ''start_y''),
     (''Event'', ''Event Type''), (''Action'', ''Event Type''), (''Type'', ''Event Type''),
     (''Match'', ''Match ID''), (''Game'', ''Match ID''), (''Fixture'', ''Match ID'')]"

text \<open>The single quote, and the arrow of the log messages (U+2192) in UTF-8.\<close>

definition apostrophe :: string where
  "apostrophe = [CHR 0x27]"

definition arrow :: string where
  "arrow = [CHR 0xE2, CHR 0x86, CHR 0x92]"

definition column_mapping :: "string \<Rightarrow> string \<Rightarrow> string" where
  "column_mapping alias canonical =
     ''Column mapping: '' @ apostrophe @ alias @ apostrophe @ '' '' @ arrow @ '' ''
       @ apostrophe @ canonical @ apostrophe"

text \<open>
  The loop of \<open>normalize_columns\<close> over the alias dictionary. It works on the table
  \<open>df_normalized\<close> and on the list \<open>self.corrections_log\<close>; both tests read the
  table as the loop has left it so far.
\<close>

fun normalize_loop ::
  "(string \<times> string) list \<Rightarrow> 'v table \<Rightarrow> string list \<Rightarrow> 'v table \<times> string list" where
  "normalize_loop [] t log = (t, log)"
| "normalize_loop ((alias, canonical) # rest) t log =
     (case getitem t alias of
        Some vals \<Rightarrow>
          if canonical \<notin> set (columns t)
          then normalize_loop rest (setitem t canonical vals) (log @ [column_mapping alias canonical])
          else normalize_loop rest t log
      | None \<Rightarrow> normalize_loop rest t log)"

subsection \<open>The object and the store\<close>

text \<open>
  Tables are mutable objects that the caller and the \<open>VisualizationUtils\<close> object
  share by reference. The store is the list of the tables allocated so far, and a
  reference is a position in it.
\<close>

type_synonym 'v store = "'v table list"

record visualization_utils =
  df :: nat
  original_columns :: "string set"
  corrections_log :: "string list"

text \<open>The constructor \<open>__init__(self, df)\<close>.\<close>

definition VisualizationUtils :: "'v store \<Rightarrow> nat \<Rightarrow> visualization_utils" where
  "VisualizationUtils h ref =
     \<lparr>df = ref, original_columns = set (columns (h ! ref)), corrections_log = []\<rparr>"

text \<open>A reference is valid in a store when a table stands at it.\<close>

definition valid_ref :: "'v store \<Rightarrow> nat \<Rightarrow> bool" where
  "valid_ref h ref = (ref < length h)"

text \<open>
  \<open>normalize_columns\<close>: \<open>self.df.copy()\<close> allocates a new table, the loop works on
  the copy and on the log of the object, and the reference of the copy is returned.
\<close>

definition normalize_columns ::
  "'v store \<Rightarrow> visualization_utils \<Rightarrow> nat \<times> 'v store \<times> visualization_utils" where
  "normalize_columns h self =
     (let df_normalized = length h;
          h1 = h @ [h ! df self];
          (t, log) = normalize_loop COLUMN_ALIASES (h1 ! df_normalized) (corrections_log self)
      in (df_normalized, h1[df_normalized := t], self\<lparr>corrections_log := log\<rparr>))"

subsection \<open>What the normalizer adds\<close>

text \<open>
  For a canonical name, the first entry of the alias dictionary that maps a column of
  the table to it; and the entries of the dictionary that the normalizer applies to a
  table: the canonical name is not a column of the table, and the entry is the first
  one for that canonical name whose alias is a column of the table.
\<close>

definition first_alias ::
  "(string \<times> string) list \<Rightarrow> 'v table \<Rightarrow> string \<Rightarrow> (string \<times> string) option" where
  "first_alias A t canonical = find (\<lambda>(a, c). c = canonical \<and> a \<in> set (columns t)) A"

definition applied :: "(string \<times> string) list \<Rightarrow> 'v table \<Rightarrow> (string \<times> string) list" where
  "applied A t = filter (\<lambda>(a, c). c \<notin> set (columns t) \<and> first_alias A t c = Some (a, c)) A"

text \<open>The columns that the applied entries add, and the log entries they leave.\<close>

definition shadow_columns :: "(string \<times> string) list \<Rightarrow> 'v table \<Rightarrow> 'v table" where
  "shadow_columns A t = map (\<lambda>(a, c). (c, the (getitem t a))) (applied A t)"

definition mapping_entries :: "(string \<times> string) list \<Rightarrow> 'v table \<Rightarrow> string list" where
  "mapping_entries A t = map (\<lambda>(a, c). column_mapping a c) (applied A t)"

text \<open>The table that \<open>normalize_columns\<close> returns, and the log it leaves in the object.\<close>

definition normalized_table :: "'v store \<Rightarrow> visualization_utils \<Rightarrow> 'v table" where
  "normalized_table h self = (case normalize_columns h self of (r, h', self') \<Rightarrow> h' ! r)"

definition log_after_normalize :: "'v store \<Rightarrow> visualization_utils \<Rightarrow> string list" where
  "log_after_normalize h self =
     (case normalize_columns h self of (r, h', self') \<Rightarrow> corrections_log self')"


text \<open>Two small stores for examples: each holds one table of natural numbers.\<close>

definition squad_club_store :: "nat store" where
  "squad_club_store = [[(''Squad'', [1]), (''Club'', [2])]]"



text \<open>
  Normalizing twice: a second object is constructed on the table that the first call
  returned, and \<open>normalize_columns\<close> is called on it.
\<close>

definition normalize_twice ::
  "'v store \<Rightarrow> visualization_utils \<Rightarrow> nat \<times> 'v store \<times> visualization_utils" where
  "normalize_twice h self =
     (case normalize_columns h self of
        (r, h', self') \<Rightarrow> normalize_columns h' (VisualizationUtils h' r))"

section \<open>Extraction of code blocks\<close>

text \<open>
  \<open>str.find\<close>: the index of the first occurrence of \<open>sub\<close> in the text, \<open>None\<close> where
  Python returns \<open>-1\<close>.
\<close>

fun str_find :: "string \<Rightarrow> string \<Rightarrow> nat option" where
  "str_find sub [] = (if sub = [] then Some 0 else None)"
| "str_find sub (c # s) =
     (if prefix sub (c # s) then Some 0 else map_option Suc (str_find sub s))"

text \<open>\<open>str.strip()\<close>: leading and trailing whitespace removed.\<close>

definition strip :: "string \<Rightarrow> string" where
  "strip s = rev (dropWhile is_space (rev (dropWhile is_space s)))"

definition marker :: string where
  "marker = ''## SUGGESTED VISUALIZATIONS''"

definition fence :: string where
  "fence = ''```''"

definition python_fence :: string where
  "python_fence = ''```python''"

text \<open>
  The tail \<open>(.*?)```\<close> of the pattern under \<open>re.DOTALL\<close>: the shortest text up to a
  closing fence, with the text left after that fence; \<open>None\<close> when no fence follows.
\<close>

fun until_fence :: "string \<Rightarrow> (string \<times> string) option" where
  "until_fence [] = None"
| "until_fence (c # s) =
     (if prefix fence (c # s) then Some ([], drop (length fence) (c # s))
      else map_option (\<lambda>(block, rest). (c # block, rest)) (until_fence s))"

lemma until_fence_shorter:
  "until_fence s = Some (block, rest) \<Longrightarrow> length rest < length s"
proof (induction s arbitrary: block)
  case Nil
  then show ?case by simp
next
  case (Cons c s)
  show ?case
  proof (cases "prefix fence (c # s)")
    case True
    with Cons.prems show ?thesis by (auto simp: fence_def)
  next
    case False
    with Cons.prems obtain b where "until_fence s = Some (b, rest)" by auto
    then have "length rest < length s" by (rule Cons.IH)
    then show ?thesis by simp
  qed
qed

text \<open>
  \<open>re.findall(r"```python(.*?)```", text, re.DOTALL)\<close>: the text is scanned from left to
  right; where the opening fence with its tag stands and a closing fence follows, the
  text between them is a block and the scan goes on after the closing fence; elsewhere
  the scan moves on by one character.
\<close>

function findall_python :: "string \<Rightarrow> string list" where
  "findall_python [] = []"
| "findall_python (c # s) =
     (if prefix python_fence (c # s)
      then (case until_fence (drop (length python_fence) (c # s)) of
              Some (block, rest) \<Rightarrow> block # findall_python rest
            | None \<Rightarrow> findall_python s)
      else findall_python s)"
  by pat_completeness auto
termination
proof (relation "measure length")
  show "wf (measure length)" by simp
next
  fix c s x2 x y
  assume "until_fence (drop (length python_fence) (c # s)) = Some x2" "(x, y) = x2"
  then have "until_fence (drop (length python_fence) (c # s)) = Some (x, y)" by simp
  then have "length y < length (drop (length python_fence) (c # s))"
    by (rule until_fence_shorter)
  then show "(y, c # s) \<in> measure length" by simp
qed simp_all

definition extract_code_blocks :: "string \<Rightarrow> string list" where
  "extract_code_blocks text =
     (let code_blocks =
            (case str_find marker text of
               None \<Rightarrow> findall_python text
             | Some start_idx \<Rightarrow> findall_python (drop start_idx text))
      in map strip (filter (\<lambda>block. strip block \<noteq> []) code_blocks))"

text \<open>The example text of the specification.\<close>

definition example_report :: string where
  "example_report =
     ''prose ## SUGGESTED VISUALIZATIONS '' @ [newline] @ ''```python'' @ [newline]
       @ ''X'' @ [newline] @ ''```''"

section \<open>Closest column names: \<open>difflib.get_close_matches\<close>\<close>

text \<open>
  \<open>get_close_matches(word, possibilities, n=1, cutoff=0.6)\<close> compares the word with
  each possibility \<open>x\<close> through a \<open>SequenceMatcher\<close> whose first sequence is \<open>x\<close> and
  whose second sequence is the word. With more than 200 characters in the second
  sequence, a character that makes up more than one percent of it (plus one) is
  ``popular'' and is left out of the search for matching blocks.
\<close>

definition popular :: "string \<Rightarrow> char \<Rightarrow> bool" where
  "popular b c = (200 \<le> length b \<and> length b div 100 + 1 < count_list b c)"

text \<open>
  One row of the table of \<open>find_longest_match\<close>: for the element \<open>ai\<close> of the first
  sequence and every position \<open>j\<close> of the second one, the length of the longest common
  run that ends at both, built from the row of the element before.
\<close>

definition new_row :: "(char \<Rightarrow> bool) \<Rightarrow> char \<Rightarrow> string \<Rightarrow> nat list \<Rightarrow> nat list" where
  "new_row pop ai bs prev =
     map (\<lambda>(bj, k). if bj = ai \<and> \<not> pop bj then k + 1 else 0) (zip bs (0 # prev))"

text \<open>The best block so far \<open>(besti, bestj, bestsize)\<close>, updated along one row.\<close>

fun row_best :: "nat \<Rightarrow> nat \<Rightarrow> nat list \<Rightarrow> nat \<times> nat \<times> nat \<Rightarrow> nat \<times> nat \<times> nat" where
  "row_best i j [] best = best"
| "row_best i j (k # ks) (besti, bestj, bestsize) =
     row_best i (Suc j) ks
       (if bestsize < k then (i + 1 - k, j + 1 - k, k) else (besti, bestj, bestsize))"

fun longest_loop ::
  "(char \<Rightarrow> bool) \<Rightarrow> string \<Rightarrow> string \<Rightarrow> nat \<Rightarrow> nat list \<Rightarrow> nat \<times> nat \<times> nat
     \<Rightarrow> nat \<times> nat \<times> nat" where
  "longest_loop pop [] bs i prev best = best"
| "longest_loop pop (ai # as) bs i prev best =
     (let row = new_row pop ai bs prev
      in longest_loop pop as bs (Suc i) row (row_best i 0 row best))"

text \<open>The number of leading positions at which two sequences agree.\<close>

fun common_prefix :: "string \<Rightarrow> string \<Rightarrow> nat" where
  "common_prefix (x # xs) (y # ys) = (if x = y then Suc (common_prefix xs ys) else 0)"
| "common_prefix xs ys = 0"

text \<open>
  \<open>find_longest_match\<close> on the whole of \<open>a\<close> and \<open>b\<close>: the first longest block
  among the elements that are not popular, then extended to the left and to the right
  over equal elements.
\<close>

definition find_longest_match :: "(char \<Rightarrow> bool) \<Rightarrow> string \<Rightarrow> string \<Rightarrow> nat \<times> nat \<times> nat" where
  "find_longest_match pop a b =
     (case longest_loop pop a b 0 (replicate (length b) 0) (0, 0, 0) of
        (besti, bestj, bestsize) \<Rightarrow>
          let l = common_prefix (rev (take besti a)) (rev (take bestj b));
              i = besti - l; j = bestj - l; k = bestsize + l;
              r = common_prefix (drop (i + k) a) (drop (j + k) b)
          in (i, j, k + r))"

text \<open>The block that \<open>find_longest_match\<close> returns lies inside the first sequence.\<close>

lemma new_row_bound:
  assumes "\<forall>k \<in> set prev. k \<le> n"
  shows "\<forall>k \<in> set (new_row pop ai bs prev). k \<le> Suc n"
proof
  fix k assume "k \<in> set (new_row pop ai bs prev)"
  then obtain bj p where "(bj, p) \<in> set (zip bs (0 # prev))"
    and k: "k = (if bj = ai \<and> \<not> pop bj then p + 1 else 0)"
    unfolding new_row_def by auto
  then have "p \<in> set (0 # prev)" by (meson set_zip_rightD)
  then have "p \<le> n" using assms by auto
  then show "k \<le> Suc n" using k by simp
qed

lemma row_best_bound:
  assumes "\<forall>k \<in> set ks. k \<le> m" and "i < m" and "besti + bestsize \<le> m"
    and "row_best i j ks (besti, bestj, bestsize) = (i', j', k')"
  shows "i' + k' \<le> m"
  using assms
proof (induction ks arbitrary: j besti bestj bestsize)
  case Nil
  then show ?case by simp
next
  case (Cons k ks)
  show ?case
  proof (cases "bestsize < k")
    case True
    have "k \<le> m" using Cons.prems(1) by simp
    then have "(i + 1 - k) + k \<le> m" using Cons.prems(2) by simp
    moreover have "row_best i (Suc j) ks (i + 1 - k, j + 1 - k, k) = (i', j', k')"
      using Cons.prems(4) True by simp
    moreover have "\<forall>k \<in> set ks. k \<le> m" using Cons.prems(1) by simp
    ultimately show ?thesis using Cons.IH Cons.prems(2) by blast
  next
    case False
    then have "row_best i (Suc j) ks (besti, bestj, bestsize) = (i', j', k')"
      using Cons.prems(4) by simp
    moreover have "\<forall>k \<in> set ks. k \<le> m" using Cons.prems(1) by simp
    ultimately show ?thesis using Cons.IH Cons.prems(2,3) by blast
  qed
qed

lemma longest_loop_bound:
  assumes "\<forall>k \<in> set prev. k \<le> i" and "besti + bestsize \<le> i + length as"
    and "longest_loop pop as bs i prev (besti, bestj, bestsize) = (i', j', k')"
  shows "i' + k' \<le> i + length as"
  using assms
proof (induction as arbitrary: i prev besti bestj bestsize)
  case Nil
  then show ?case by simp
next
  case (Cons ai as)
  let ?row = "new_row pop ai bs prev"
  obtain bi bj bk where rb: "row_best i 0 ?row (besti, bestj, bestsize) = (bi, bj, bk)"
    by (cases "row_best i 0 ?row (besti, bestj, bestsize)")
  have row: "\<forall>k \<in> set ?row. k \<le> Suc i"
    using Cons.prems(1) by (rule new_row_bound)
  then have "\<forall>k \<in> set ?row. k \<le> i + length (ai # as)" by auto
  moreover have "i < i + length (ai # as)" by simp
  ultimately have "bi + bk \<le> i + length (ai # as)"
    using Cons.prems(2) rb by (rule row_best_bound)
  then have b: "bi + bk \<le> Suc i + length as" by simp
  have "longest_loop pop as bs (Suc i) ?row (bi, bj, bk) = (i', j', k')"
    using Cons.prems(3) rb by (simp add: Let_def)
  with row b have "i' + k' \<le> Suc i + length as" by (rule Cons.IH)
  then show ?case by simp
qed

lemma common_prefix_le: "common_prefix xs ys \<le> length xs"
  by (induction xs ys rule: common_prefix.induct) simp_all

lemma find_longest_match_bound:
  assumes "find_longest_match pop a b = (i, j, k)"
  shows "i + k \<le> length a"
proof -
  obtain bi bj bk where ll: "longest_loop pop a b 0 (replicate (length b) 0) (0, 0, 0) = (bi, bj, bk)"
    by (cases "longest_loop pop a b 0 (replicate (length b) 0) (0, 0, 0)")
  have "\<forall>k \<in> set (replicate (length b) (0::nat)). k \<le> 0" by simp
  moreover have "(0::nat) + 0 \<le> 0 + length a" by simp
  ultimately have "bi + bk \<le> 0 + length a" using ll by (rule longest_loop_bound)
  then have b: "bi + bk \<le> length a" by simp
  let ?l = "common_prefix (rev (take bi a)) (rev (take bj b))"
  let ?r = "common_prefix (drop (bi - ?l + (bk + ?l)) a) (drop (bj - ?l + (bk + ?l)) b)"
  have l: "?l \<le> bi" using common_prefix_le [of "rev (take bi a)" "rev (take bj b)"] by simp
  have r: "?r \<le> length a - (bi - ?l + (bk + ?l))"
    using common_prefix_le [of "drop (bi - ?l + (bk + ?l)) a"] by simp
  have "find_longest_match pop a b = (bi - ?l, bj - ?l, bk + ?l + ?r)"
    unfolding find_longest_match_def ll by (simp add: Let_def)
  then have "(i, j, k) = (bi - ?l, bj - ?l, bk + ?l + ?r)"
    by (rule trans [OF assms [symmetric]])
  then have "i = bi - ?l" and "k = bk + ?l + ?r"
    by blast+
  then show ?thesis using b l r by linarith
qed

text \<open>
  The sum of the sizes of the matching blocks (\<open>get_matching_blocks\<close>): the longest
  block, then the blocks to its left and to its right, as long as both sides are
  non-empty.
\<close>

function matching_total :: "(char \<Rightarrow> bool) \<Rightarrow> string \<Rightarrow> string \<Rightarrow> nat" where
  "matching_total pop a b =
     (case find_longest_match pop a b of
        (i, j, k) \<Rightarrow>
          if k = 0 then 0
          else k
            + (if 0 < i \<and> 0 < j then matching_total pop (take i a) (take j b) else 0)
            + (if i + k < length a \<and> j + k < length b
               then matching_total pop (drop (i + k) a) (drop (j + k) b) else 0))"
  by pat_completeness auto
termination
proof (relation "measure (\<lambda>(pop, a, b). length a)", goal_cases)
  case 1
  show ?case by simp
next
  case (2 pop a b i y j k)
  then have "find_longest_match pop a b = (i, j, k)" by simp
  then have "i + k \<le> length a" by (rule find_longest_match_bound)
  with 2 show ?case by simp
next
  case (3 pop a b i y j k)
  then have "0 < k" and "i + k < length a" by simp_all
  then have "length a - (i + k) < length a" by linarith
  then show ?case by simp
qed

text \<open>
  A ratio is held as a fraction with a positive denominator: \<open>_calculate_ratio\<close> gives
  \<open>2.0 * matches / length\<close>, and \<open>1.0\<close> for two empty sequences. The quotient of
  two such small integers compares with \<open>0.6\<close>, and with another such quotient, in
  floating point as it does in exact arithmetic.
\<close>

type_synonym score = "nat \<times> nat"

definition calculate_ratio :: "nat \<Rightarrow> nat \<Rightarrow> score" where
  "calculate_ratio matches len = (if len = 0 then (1, 1) else (2 * matches, len))"

definition reaches_cutoff :: "score \<Rightarrow> bool" where
  "reaches_cutoff s = (case s of (n, d) \<Rightarrow> 3 * d \<le> 5 * n)"

definition score_eq :: "score \<Rightarrow> score \<Rightarrow> bool" where
  "score_eq s t = (case s of (n, d) \<Rightarrow> case t of (n', d') \<Rightarrow> n * d' = n' * d)"

definition score_less :: "score \<Rightarrow> score \<Rightarrow> bool" where
  "score_less s t = (case s of (n, d) \<Rightarrow> case t of (n', d') \<Rightarrow> n * d' < n' * d)"

definition ratio :: "string \<Rightarrow> string \<Rightarrow> score" where
  "ratio a b = calculate_ratio (matching_total (popular b) a b) (length a + length b)"

text \<open>\<open>quick_ratio\<close> counts the elements the two sequences share as multisets.\<close>

fun quick_matches :: "string \<Rightarrow> string \<Rightarrow> nat" where
  "quick_matches [] b = 0"
| "quick_matches (x # a) b =
     (if x \<in> set b then Suc (quick_matches a (remove1 x b)) else quick_matches a b)"

definition quick_ratio :: "string \<Rightarrow> string \<Rightarrow> score" where
  "quick_ratio a b = calculate_ratio (quick_matches a b) (length a + length b)"

definition real_quick_ratio :: "string \<Rightarrow> string \<Rightarrow> score" where
  "real_quick_ratio a b = calculate_ratio (min (length a) (length b)) (length a + length b)"

text \<open>The order of Python on strings, and on the pairs \<open>(score, x)\<close>.\<close>

fun str_less :: "string \<Rightarrow> string \<Rightarrow> bool" where
  "str_less [] [] = False"
| "str_less [] (y # ys) = True"
| "str_less (x # xs) [] = False"
| "str_less (x # xs) (y # ys) =
     ((of_char x :: nat) < of_char y \<or> (x = y \<and> str_less xs ys))"

definition pair_greater :: "score \<times> string \<Rightarrow> score \<times> string \<Rightarrow> bool" where
  "pair_greater p q =
     (if score_eq (fst p) (fst q) then str_less (snd q) (snd p) else score_less (fst q) (fst p))"

text \<open>
  \<open>get_close_matches\<close> with \<open>n = 1\<close> and \<open>cutoff = 0.6\<close>: the possibilities that pass
  the three tests are collected with their ratio, and \<open>heapq.nlargest(1, result)\<close> keeps
  the first greatest pair.
\<close>

definition get_close_matches :: "string \<Rightarrow> string list \<Rightarrow> string list" where
  "get_close_matches word possibilities =
     (let result =
            map (\<lambda>x. (ratio x word, x))
              (filter (\<lambda>x. reaches_cutoff (real_quick_ratio x word)
                          \<and> reaches_cutoff (quick_ratio x word)
                          \<and> reaches_cutoff (ratio x word)) possibilities)
      in case result of
           [] \<Rightarrow> []
         | r # rs \<Rightarrow> [snd (foldl (\<lambda>best item. if pair_greater item best then item else best) r rs)])"

section \<open>The code auto-repair\<close>

subsection \<open>The fixed replacements\<close>

text \<open>\<open>sub in s\<close> on strings.\<close>

definition contains :: "string \<Rightarrow> string \<Rightarrow> bool" where
  "contains sub s = (str_find sub s \<noteq> None)"

text \<open>
  \<open>s.replace(old, new)\<close>: every occurrence of \<open>old\<close>, found from left to right
  without overlaps, is replaced; an empty \<open>old\<close> stands before every character and at
  the end.
\<close>

function replace_all :: "string \<Rightarrow> string \<Rightarrow> string \<Rightarrow> string" where
  "replace_all old new [] = []"
| "replace_all old new (c # s) =
     (if prefix old (c # s) then new @ replace_all old new (drop (length old - 1) s)
      else c # replace_all old new s)"
  by pat_completeness auto
termination
  by (relation "measure (\<lambda>(old, new, s). length s)") auto

definition str_replace :: "string \<Rightarrow> string \<Rightarrow> string \<Rightarrow> string" where
  "str_replace old new s =
     (if old = [] then new @ concat (map (\<lambda>c. c # new) s) else replace_all old new s)"

definition replacements :: "(string \<times> string) list" where
  "replacements =
    [(''mplsoccer()'', ''Pitch()''),
     (''mplsoccer.Pitch()'', ''Pitch()''),
     (''from mplsoccer import *'', ''from mplsoccer import Pitch''),
     (''plt.show()()'', ''plt.show()''),
     (''plt.plt.'', ''plt.''),
     (''plt..'', ''plt.''),
     (''df.plot()'', ''df.plot()'')]"

definition code_fix :: "string \<Rightarrow> string \<Rightarrow> string" where
  "code_fix wrong right =
     ''Code fix: '' @ apostrophe @ wrong @ apostrophe @ '' '' @ arrow @ '' ''
       @ apostrophe @ right @ apostrophe"

fun replacement_loop ::
  "(string \<times> string) list \<Rightarrow> string \<Rightarrow> string list \<Rightarrow> string \<times> string list" where
  "replacement_loop [] fixed_code corrections = (fixed_code, corrections)"
| "replacement_loop ((wrong, right) # rest) fixed_code corrections =
     (if contains wrong fixed_code
      then replacement_loop rest (str_replace wrong right fixed_code)
             (corrections @ [code_fix wrong right])
      else replacement_loop rest fixed_code corrections)"

subsection \<open>The scan for column references\<close>

definition is_quote :: "char \<Rightarrow> bool" where
  "is_quote c = (c = CHR 0x27 \<or> c = CHR 0x22)"

text \<open>
  The tail \<open>(.*?)['"]\<bsol>]\<close> of the column pattern: the shortest text on one line up
  to a quote directly followed by a closing bracket, with the text left after the
  bracket.
\<close>

fun until_close :: "string \<Rightarrow> (string \<times> string) option" where
  "until_close [] = None"
| "until_close [c] = None"
| "until_close (c # d # s) =
     (if is_quote c \<and> d = CHR '']'' then Some ([], s)
      else if c = newline then None
      else map_option (\<lambda>(name, rest). (c # name, rest)) (until_close (d # s)))"

lemma until_close_shorter:
  "until_close s = Some (name, rest) \<Longrightarrow> length rest < length s"
proof (induction s arbitrary: name rule: until_close.induct)
  case 1
  then show ?case by simp
next
  case (2 c)
  then show ?case by simp
next
  case (3 c d s)
  show ?case
  proof (cases "is_quote c \<and> d = CHR '']''")
    case True
    with "3.prems" show ?thesis by auto
  next
    case False
    with "3.prems" have nl: "c \<noteq> newline" by (auto split: if_splits)
    with False "3.prems" obtain n where "until_close (d # s) = Some (n, rest)" by auto
    then have "length rest < length (d # s)" using False nl by (intro "3.IH") auto
    then show ?thesis by simp
  qed
qed

text \<open>
  The column pattern \<open>df\<bsol>[['"](.*?)['"]\<bsol>]\<close> at the head of a text: the name it
  captures and the text left after the match.
\<close>

definition column_at :: "string \<Rightarrow> (string \<times> string) option" where
  "column_at s =
     (if prefix ''df['' s
      then (case drop 3 s of
              [] \<Rightarrow> None
            | q # r \<Rightarrow> if is_quote q then until_close r else None)
      else None)"

lemma column_at_shorter:
  assumes "column_at s = Some (name, rest)"
  shows "length rest < length s"
proof -
  from assms obtain q r where d: "drop 3 s = q # r" and u: "until_close r = Some (name, rest)"
    unfolding column_at_def by (auto split: if_splits list.splits)
  have "length rest < length r" using u by (rule until_close_shorter)
  moreover have "length (drop 3 s) \<le> length s" by simp
  ultimately show ?thesis unfolding d by simp
qed

text \<open>\<open>re.findall\<close> of the column pattern: the names found, from left to right.\<close>

function findall_columns :: "string \<Rightarrow> string list" where
  "findall_columns [] = []"
| "findall_columns (c # s) =
     (case column_at (c # s) of
        Some (name, rest) \<Rightarrow> name # findall_columns rest
      | None \<Rightarrow> findall_columns s)"
  by pat_completeness auto
termination
proof (relation "measure length", goal_cases)
  case 1
  show ?case by simp
next
  case 2
  show ?case by simp
next
  case (3 c s x2 name rest)
  then have "column_at (c # s) = Some (name, rest)" by simp
  then have "length rest < length (c # s)" by (rule column_at_shorter)
  then show ?case by simp
qed

subsection \<open>Exceptions\<close>

text \<open>
  An exception is either the \<open>re.error\<close> of the \<open>re\<close> module, or one raised by
  executed code, with its class (an instance of \<open>Exception\<close>, or of \<open>BaseException\<close>
  only, as \<open>SystemExit\<close> and \<open>KeyboardInterrupt\<close> are), its message \<open>str(e)\<close> and the
  text of its stack trace.
\<close>

datatype exc_class = ExceptionClass | BaseExceptionOnly

datatype py_exception = ReError | Raised exc_class string string

fun is_Exception :: "py_exception \<Rightarrow> bool" where
  "is_Exception ReError = True"
| "is_Exception (Raised cls message trace) = (cls = ExceptionClass)"

subsection \<open>The rewriting of a column reference\<close>

text \<open>
  \<open>re.sub\<close> reads its replacement string as a template. For the pattern of a column
  reference, which has no group, the template is a sequence of literal characters and
  references to the whole match. A backslash in the replacement starts an escape:
  \<open>\<bsol>g<0>\<close> is the whole match, \<open>\<bsol>0\<close> and three octal digits give a character,
  \<open>\<bsol>a \<bsol>b \<bsol>f \<bsol>n \<bsol>r \<bsol>t \<bsol>v \<bsol>\<bsol>\<close> stand for one character, a backslash before
  a character that is neither a letter nor a digit is kept, and everything else raises
  \<open>re.error\<close>. (This is \<open>parse_template\<close> of Python 3.12.)
\<close>

datatype piece = Literal char | Group0

definition is_digit :: "char \<Rightarrow> bool" where
  "is_digit c = (c \<in> set ''0123456789'')"

definition is_octal :: "char \<Rightarrow> bool" where
  "is_octal c = (c \<in> set ''01234567'')"

definition is_ascii_letter :: "char \<Rightarrow> bool" where
  "is_ascii_letter c =
     (c \<in> set ''abcdefghijklmnopqrstuvwxyzABCDEFGHIJKLMNOPQRSTUVWXYZ'')"

definition digit_val :: "char \<Rightarrow> nat" where
  "digit_val c = of_char c - 48"

definition simple_escape :: "char \<Rightarrow> char option" where
  "simple_escape c =
     map_of [(CHR ''a'', CHR 0x07), (CHR ''b'', CHR 0x08), (CHR ''f'', CHR 0x0C),
             (CHR ''n'', CHR 0x0A), (CHR ''r'', CHR 0x0D), (CHR ''t'', CHR 0x09),
             (CHR ''v'', CHR 0x0B), (CHR 0x5C, CHR 0x5C)] c"

text \<open>After \<open>\<bsol>g\<close>: the group name in angle brackets, which must denote group 0.\<close>

definition group_ref :: "string \<Rightarrow> py_exception + (piece list \<times> string)" where
  "group_ref r =
     (case r of
        [] \<Rightarrow> Inl ReError
      | lt # r' \<Rightarrow>
          if lt \<noteq> CHR ''<'' then Inl ReError
          else let name = takeWhile (\<lambda>x. x \<noteq> CHR ''>'') r';
                   rest = dropWhile (\<lambda>x. x \<noteq> CHR ''>'') r'
               in if rest = [] \<or> name = [] then Inl ReError
                  else if list_all (\<lambda>x. x = CHR ''0'') name then Inr ([Group0], tl rest)
                  else Inl ReError)"

text \<open>After \<open>\<bsol>0\<close>: up to two more octal digits.\<close>

definition octal_escape :: "string \<Rightarrow> piece list \<times> string" where
  "octal_escape r =
     (case r of
        [] \<Rightarrow> ([Literal (CHR 0x00)], r)
      | d1 # r1 \<Rightarrow>
          if is_octal d1
          then (case r1 of
                  [] \<Rightarrow> ([Literal (char_of (digit_val d1))], r1)
                | d2 # r2 \<Rightarrow>
                    if is_octal d2
                    then ([Literal (char_of (8 * digit_val d1 + digit_val d2))], r2)
                    else ([Literal (char_of (digit_val d1))], r1))
          else ([Literal (CHR 0x00)], r))"

text \<open>
  After a backslash and a digit \<open>e\<close> from 1 to 9: three octal digits give a character,
  anything else is a reference to a group that the pattern does not have.
\<close>

definition digit_escape :: "char \<Rightarrow> string \<Rightarrow> py_exception + (piece list \<times> string)" where
  "digit_escape e r =
     (case r of
        d1 # d2 # r2 \<Rightarrow>
          if is_octal e \<and> is_octal d1 \<and> is_octal d2
          then (let v = 64 * digit_val e + 8 * digit_val d1 + digit_val d2
                in if 255 < v then Inl ReError else Inr ([Literal (char_of v)], r2))
          else Inl ReError
      | _ \<Rightarrow> Inl ReError)"

text \<open>What follows a backslash: the pieces it stands for and the text left.\<close>

definition escape_at :: "string \<Rightarrow> py_exception + (piece list \<times> string)" where
  "escape_at s =
     (case s of
        [] \<Rightarrow> Inl ReError
      | e # r \<Rightarrow>
          if e = CHR ''g'' then group_ref r
          else if e = CHR ''0'' then Inr (octal_escape r)
          else if is_digit e then digit_escape e r
          else (case simple_escape e of
                  Some x \<Rightarrow> Inr ([Literal x], r)
                | None \<Rightarrow>
                    if is_ascii_letter e then Inl ReError
                    else Inr ([Literal backslash, Literal e], r)))"

lemma escape_at_shorter:
  assumes "escape_at s = Inr (pieces, rest)"
  shows "length rest \<le> length s"
proof (cases s)
  case Nil
  with assms show ?thesis by (simp add: escape_at_def)
next
  case (Cons e r)
  have g: "length rest \<le> length r" if "group_ref r = Inr (pieces, rest)"
  proof -
    from that obtain r' where "rest = tl (dropWhile (\<lambda>x. x \<noteq> CHR ''>'') r')"
      and "length r' \<le> length r"
      unfolding group_ref_def by (auto simp: Let_def split: list.splits if_splits)
    moreover have "length (tl (dropWhile (\<lambda>x. x \<noteq> CHR ''>'') r')) \<le> length r'"
      using length_dropWhile_le [of "\<lambda>x. x \<noteq> CHR ''>''" r'] by simp
    ultimately show ?thesis by simp
  qed
  have o: "length (snd (octal_escape r)) \<le> length r"
    unfolding octal_escape_def by (auto split: list.splits)
  have d: "length rest \<le> length r" if "digit_escape e r = Inr (pieces, rest)"
    using that unfolding digit_escape_def
    by (auto simp: Let_def split: list.splits if_splits)
  from assms Cons g o d show ?thesis
    unfolding escape_at_def
    by (auto split: if_splits option.splits)
qed

function parse_template :: "string \<Rightarrow> py_exception + piece list" where
  "parse_template [] = Inr []"
| "parse_template (c # s) =
     (if c = backslash
      then (case escape_at s of
              Inl e \<Rightarrow> Inl e
            | Inr (pieces, rest) \<Rightarrow>
                (case parse_template rest of
                   Inl e \<Rightarrow> Inl e
                 | Inr ps \<Rightarrow> Inr (pieces @ ps)))
      else (case parse_template s of
              Inl e \<Rightarrow> Inl e
            | Inr ps \<Rightarrow> Inr (Literal c # ps)))"
  by pat_completeness auto
termination
proof (relation "measure length", goal_cases)
  case 1
  show ?case by simp
next
  case (2 c s x2 pieces rest)
  then have "escape_at s = Inr (pieces, rest)" by simp
  then have "length rest \<le> length s" by (rule escape_at_shorter)
  then show ?case by simp
next
  case 3
  show ?case by simp
qed

definition expand_template :: "piece list \<Rightarrow> string \<Rightarrow> string" where
  "expand_template pieces whole =
     concat (map (\<lambda>p. case p of Literal c \<Rightarrow> [c] | Group0 \<Rightarrow> whole) pieces)"

text \<open>
  The pattern \<open>df\<bsol>[['"]\<close>, the escaped name, \<open>['"]\<bsol>]\<close> at the head of a text.
\<close>

definition column_ref_at :: "string \<Rightarrow> string \<Rightarrow> bool" where
  "column_ref_at col s =
     list_ex (\<lambda>q1. list_ex (\<lambda>q2. prefix (''df['' @ [q1] @ col @ [q2] @ '']'') s)
        [CHR 0x27, CHR 0x22]) [CHR 0x27, CHR 0x22]"

function sub_refs :: "string \<Rightarrow> piece list \<Rightarrow> string \<Rightarrow> string" where
  "sub_refs col pieces [] = []"
| "sub_refs col pieces (c # s) =
     (if column_ref_at col (c # s)
      then expand_template pieces (take (length col + 6) (c # s))
             @ sub_refs col pieces (drop (length col + 5) s)
      else c # sub_refs col pieces s)"
  by pat_completeness auto
termination
  by (relation "measure (\<lambda>(col, pieces, s). length s)") auto

text \<open>
  \<open>re.sub(pattern, repl, code)\<close> for the pattern of the column \<open>col\<close>: the template is
  compiled first, then every match is replaced.
\<close>

definition re_sub_column :: "string \<Rightarrow> string \<Rightarrow> string \<Rightarrow> py_exception + string" where
  "re_sub_column col repl code =
     (case parse_template repl of
        Inl e \<Rightarrow> Inl e
      | Inr pieces \<Rightarrow> Inr (sub_refs col pieces code))"

subsection \<open>\<open>auto_fix_plot_code\<close>\<close>

definition column_fix :: "string \<Rightarrow> string \<Rightarrow> string" where
  "column_fix col close =
     ''Column fix: '' @ apostrophe @ col @ apostrophe @ '' '' @ arrow @ '' ''
       @ apostrophe @ close @ apostrophe"

definition column_warning :: "string \<Rightarrow> string" where
  "column_warning col =
     ''Warning: Column '' @ apostrophe @ col @ apostrophe
       @ '' not found and no close match available''"

text \<open>The replacement string \<open>f"df['{close_match[0]}']"\<close>.\<close>

definition column_replacement :: "string \<Rightarrow> string" where
  "column_replacement close = ''df['' @ apostrophe @ close @ apostrophe @ '']''"

text \<open>
  The loop over the names that the scan has found, in the order and with the
  repetitions of the scan. A \<open>re.error\<close> of \<open>re.sub\<close> leaves the loop and the function.
\<close>

fun column_loop ::
  "string list \<Rightarrow> string list \<Rightarrow> string \<Rightarrow> string list
     \<Rightarrow> py_exception + (string \<times> string list)" where
  "column_loop cols [] fixed_code corrections = Inr (fixed_code, corrections)"
| "column_loop cols (col # rest) fixed_code corrections =
     (if col \<in> set cols then column_loop cols rest fixed_code corrections
      else (case get_close_matches col cols of
              close # others \<Rightarrow>
                (case re_sub_column col (column_replacement close) fixed_code of
                   Inl e \<Rightarrow> Inl e
                 | Inr code' \<Rightarrow>
                     column_loop cols rest code' (corrections @ [column_fix col close]))
            | [] \<Rightarrow> column_loop cols rest fixed_code (corrections @ [column_warning col])))"

text \<open>
  The formatter \<open>autopep8.fix_code\<close> is a parameter: it returns the formatted code
  (\<open>Inr\<close>) or raises an \<open>Exception\<close> with a message (\<open>Inl\<close>).
\<close>

type_synonym formatter = "string \<Rightarrow> string + string"

definition auto_fix_plot_code ::
  "formatter \<Rightarrow> 'v store \<Rightarrow> visualization_utils \<Rightarrow> string
     \<Rightarrow> py_exception + (string \<times> string list)" where
  "auto_fix_plot_code fix_code h self code =
     (case replacement_loop replacements code [] of
        (replaced, fixes) \<Rightarrow>
          (case column_loop (columns (h ! df self)) (findall_columns replaced) replaced fixes of
             Inl e \<Rightarrow> Inl e
           | Inr (fixed_code, corrections) \<Rightarrow>
               (case fix_code fixed_code of
                  Inr formatted \<Rightarrow>
                    Inr (formatted, corrections @ [''Code auto-formatted with autopep8''])
                | Inl message \<Rightarrow>
                    Inr (fixed_code, corrections @ [''Auto-formatting failed: '' @ message]))))"

text \<open>A store with one table that has the columns \<open>Player\<close> and \<open>Team\<close>, and one whose
  column name holds a backslash.\<close>

definition player_team_store :: "nat store" where
  "player_team_store = [[(''Player'', [1]), (''Team'', [2])]]"

definition backslash_column :: string where
  "backslash_column = ''Play'' @ [backslash] @ ''er''"

definition backslash_store :: "nat store" where
  "backslash_store = [[(backslash_column, [1])]]"

text \<open>Two formatters for examples: one leaves the code as it is, one always fails.\<close>

definition keep_code :: formatter where
  "keep_code code = Inr code"

definition failing_formatter :: formatter where
  "failing_formatter code = Inl ''boom''"

text \<open>The entries of a corrections list that report a column fix, and those that the
  formatting step writes.\<close>

definition is_column_fix :: "string \<Rightarrow> bool" where
  "is_column_fix entry = prefix ''Column fix: '' entry"

definition is_format_entry :: "string \<Rightarrow> bool" where
  "is_format_entry entry =
     (entry = ''Code auto-formatted with autopep8'' \<or> prefix ''Auto-formatting failed: '' entry)"

section \<open>The sandboxed executor\<close>

text \<open>\<open>sep.join(xs)\<close>, and \<open>str(n)\<close> for a natural number.\<close>

fun join :: "string \<Rightarrow> string list \<Rightarrow> string" where
  "join sep [] = []"
| "join sep [x] = x"
| "join sep (x # y # ys) = x @ sep @ join sep (y # ys)"





type_synonym 'img execution_result = "bool \<times> string \<times> 'img option"




section \<open>The column-info reporter\<close>

text \<open>
  How pandas names the type of a column and how Python prints a list of cell values
  are parameters, as is the test for a missing value.
\<close>

record 'v cell_ops =
  isna :: "'v \<Rightarrow> bool"
  dtype_name :: "'v list \<Rightarrow> string"
  str_list :: "'v list \<Rightarrow> string"

definition column_line :: "'v cell_ops \<Rightarrow> string \<times> 'v list \<Rightarrow> string" where
  "column_line ops column =
     (case column of
        (col, vals) \<Rightarrow>
          ''- '' @ col @ '' ('' @ dtype_name ops vals @ ''): ''
            @ str_list ops (take 3 (filter (\<lambda>v. \<not> isna ops v) vals)))"

definition get_available_columns_info ::
  "'v cell_ops \<Rightarrow> 'v store \<Rightarrow> visualization_utils \<Rightarrow> string" where
  "get_available_columns_info ops h self = join [newline] (map (column_line ops) (h ! df self))"

text \<open>Example code strings: two references to the same missing column, and one
  reference to a missing column beside one to an existing column.\<close>

definition two_references :: string where
  "two_references = ''df['Players']df['Players']''"

definition plot_call :: string where
  "plot_call = ''plot(df['Players'], df['Team'])''"

text \<open>Example code strings: one that needs no change, and one that calls \<open>df.plot()\<close>.\<close>

definition plain_code :: string where
  "plain_code = ''x = 1''"

definition df_plot_code :: string where
  "df_plot_code = ''df.plot()''"


text \<open>What \<open>execute_code_safely\<close> hands back to its caller: the exception that left it,
  or the Execution Result.\<close>

definition outcome_of ::
  "py_exception + ('img execution_result \<times> 'v store \<times> visualization_utils)
     \<Rightarrow> py_exception + 'img execution_result" where
  "outcome_of x = (case x of Inl e \<Rightarrow> Inl e | Inr (res, h', self') \<Rightarrow> Inr res)"

(*PROPERTIES*)

section \<open>Properties of the safety gate\<close>

lemma safety_loop_eq:
  "safety_loop ps code issues = issues @ map blocked (filter (\<lambda>p. re_search p code) ps)"
  by (induction ps arbitrary: issues) simp_all

text \<open>
  What matching means for a pattern of literal characters: the pattern occurs in the
  text as a contiguous piece, up to the case of letters.
\<close>

lemma match_here_lits:
  "match_here (map Lit l) s \<longleftrightarrow>
     length l \<le> length s \<and> map casefold (take (length l) s) = map casefold l"
proof (induction l arbitrary: s)
  case Nil
  show ?case by simp
next
  case (Cons c l)
  show ?case by (cases s) (auto simp: Cons.IH)
qed

lemma search_rx_lits:
  "search_rx (map Lit l) s \<longleftrightarrow> sublist (map casefold l) (map casefold s)"
proof (induction s)
  case Nil
  show ?case by (cases l) simp_all
next
  case (Cons x s)
  have "prefix (map casefold l) (map casefold (x # s)) \<longleftrightarrow> match_here (map Lit l) (x # s)"
    unfolding match_here_lits
    by (metis append_eq_conv_conj length_map prefix_def take_map prefixI prefix_length_le)
  then show ?case
    using Cons.IH by (cases l) (auto simp: sublist_Cons_right)
qed

lemma distinct_DANGEROUS_PATTERNS: "distinct DANGEROUS_PATTERNS"
  by (simp add: DANGEROUS_PATTERNS_def call_def import_def)

text \<open>
  Claim C1. For every code string, the violation list of \<open>check_code_safety\<close> holds
  one entry per pattern of the deny-list that matches the code, in the order of the
  deny-list; the verdict is unsafe with a non-empty violation list exactly when some
  pattern matches; and when no pattern matches the result is safe with no violation.
\<close>

theorem check_code_safety_verdict:
  "snd (check_code_safety C) = map blocked (filter (\<lambda>p. re_search p C) DANGEROUS_PATTERNS)
   \<and> ((fst (check_code_safety C) = False \<and> snd (check_code_safety C) \<noteq> [])
        \<longleftrightarrow> (\<exists>p \<in> set DANGEROUS_PATTERNS. re_search p C))
   \<and> ((\<forall>p \<in> set DANGEROUS_PATTERNS. \<not> re_search p C) \<longrightarrow> check_code_safety C = (True, []))"
  by (auto simp: check_code_safety_def safety_loop_eq Let_def filter_empty_conv)

theorem check_code_safety_verdict_witness:
  "(\<exists>p \<in> set DANGEROUS_PATTERNS. re_search p ''import os'')
   \<and> fst (check_code_safety ''import os'') = False
   \<and> snd (check_code_safety ''import os'') \<noteq> []"
proof -
  have m: "re_search (import ''os'') ''import os''"
    by (simp add: re_search_def import_def backslash_def casefold_def is_space_def)
  have "import ''os'' \<in> set DANGEROUS_PATTERNS"
    by (simp add: DANGEROUS_PATTERNS_def)
  with m have "\<exists>p \<in> set DANGEROUS_PATTERNS. re_search p ''import os''"
    by blast
  then show ?thesis
    using check_code_safety_verdict [of "''import os''"] by blast
qed

section \<open>Properties of the schema normalizer\<close>

lemma find_append:
  "find P (xs @ ys) = (case find P xs of None \<Rightarrow> find P ys | Some x \<Rightarrow> Some x)"
  by (induction xs) simp_all

lemma find_SomeD: "find P xs = Some x \<Longrightarrow> x \<in> set xs \<and> P x"
  by (induction xs) (auto split: if_splits)

lemma setitem_fresh:
  "name \<notin> set (columns t) \<Longrightarrow> setitem t name vals = t @ [(name, vals)]"
  by (induction t) (auto simp: columns_def)

lemma getitem_append_left:
  "a \<in> set (columns t) \<Longrightarrow> getitem (t @ x) a = getitem t a"
  by (auto simp: getitem_def columns_def map_add_def map_of_eq_None_iff split: option.splits)

lemma getitem_append_right:
  "a \<notin> set (columns t) \<Longrightarrow> getitem (t @ x) a = getitem x a"
  using map_of_eq_None_iff [of t a]
  by (auto simp: getitem_def columns_def map_add_def split: option.splits)

lemma getitem_None_iff: "getitem t a = None \<longleftrightarrow> a \<notin> set (columns t)"
  by (simp add: getitem_def columns_def map_of_eq_None_iff)

lemma first_alias_SomeD:
  "first_alias A t c = Some (a, c') \<Longrightarrow> c' = c \<and> a \<in> set (columns t) \<and> (a, c') \<in> set A"
  unfolding first_alias_def by (auto dest: find_SomeD)

lemma normalize_loop_suffix:
  fixes t :: "'v table"
  assumes dis: "set (map fst A) \<inter> set (map snd A) = {}"
    and dist: "distinct (map fst A)"
  defines "P \<equiv> (\<lambda>(a, c). c \<notin> set (columns t) \<and> first_alias A t c = Some (a, c))"
  defines "F \<equiv> map (\<lambda>(a, c). (c, the (getitem t a)))"
  defines "G \<equiv> map (\<lambda>(a, c). column_mapping a c)"
  shows "A = done @ rest \<Longrightarrow>
    normalize_loop rest (t @ F (filter P done)) (log @ G (filter P done))
      = (t @ F (filter P (done @ rest)), log @ G (filter P (done @ rest)))"
proof (induction rest arbitrary: "done")
  case Nil
  show ?case by simp
next
  case (Cons p rest)
  obtain a c where p: "p = (a, c)" by (cases p)
  let ?t = "t @ F (filter P done)"
  have A: "A = (done @ [p]) @ rest" using Cons.prems by simp
  have akey: "a \<in> set (map fst A)" and cval: "c \<in> set (map snd A)"
    using Cons.prems p by force+
  have colsF: "set (columns (F (filter P done))) = snd ` set (filter P done)"
    by (auto simp: F_def columns_def image_iff split: prod.splits)
  have a_notF: "a \<notin> set (columns (F (filter P done)))"
  proof
    assume "a \<in> set (columns (F (filter P done)))"
    then have "a \<in> snd ` set done" using colsF by auto
    then have "a \<in> set (map snd A)" using Cons.prems by auto
    with akey dis show False by blast
  qed
  have a_in: "a \<in> set (columns ?t) \<longleftrightarrow> a \<in> set (columns t)"
    using a_notF by (auto simp: columns_def)
  have get_a: "a \<in> set (columns t) \<Longrightarrow> getitem ?t a = getitem t a"
    by (rule getitem_append_left)
  have a_notdone: "(a, c') \<notin> set done" for c'
  proof
    assume "(a, c') \<in> set done"
    then have "a \<in> set (map fst done)" by force
    with dist Cons.prems p show False by auto
  qed
  have Pp: "P (a, c) \<longleftrightarrow> a \<in> set (columns ?t) \<and> c \<notin> set (columns ?t)"
  proof
    assume Pac: "P (a, c)"
    then have fa: "first_alias A t c = Some (a, c)" and cn: "c \<notin> set (columns t)"
      by (auto simp: P_def)
    have "a \<in> set (columns t)" using first_alias_SomeD [OF fa] by simp
    moreover have "c \<notin> set (columns (F (filter P done)))"
    proof
      assume "c \<in> set (columns (F (filter P done)))"
      then obtain a' where "(a', c) \<in> set done" "P (a', c)"
        using colsF by auto
      then have "first_alias A t c = Some (a', c)" by (auto simp: P_def)
      with fa have "a' = a" by simp
      with \<open>(a', c) \<in> set done\<close> a_notdone show False by blast
    qed
    ultimately show "a \<in> set (columns ?t) \<and> c \<notin> set (columns ?t)"
      using cn a_in by (auto simp: columns_def)
  next
    assume h: "a \<in> set (columns ?t) \<and> c \<notin> set (columns ?t)"
    then have at: "a \<in> set (columns t)" and cn: "c \<notin> set (columns t)"
      and cF: "c \<notin> snd ` set (filter P done)"
      using a_in colsF by (auto simp: columns_def)
    let ?Q = "\<lambda>(a', c'). c' = c \<and> a' \<in> set (columns t)"
    have nodone: "\<not> ?Q x" if "x \<in> set done" for x
    proof
      assume Qx: "?Q x"
      have "\<exists>y. find ?Q done = Some y"
        using that Qx by (cases "find ?Q done") (auto simp: find_None_iff)
      then obtain y where y: "find ?Q done = Some y" by blast
      then have "find ?Q A = Some y"
        using Cons.prems by (simp add: find_append)
      moreover have "y \<in> set done" "?Q y"
        using find_SomeD [OF y] by auto
      ultimately have "P y" using cn
        by (cases y) (auto simp: P_def first_alias_def)
      then have "y \<in> set (filter P done)" using \<open>y \<in> set done\<close> by simp
      moreover have "snd y = c" using \<open>?Q y\<close> by (cases y) simp
      ultimately show False using cF by (metis imageI)
    qed
    have "find ?Q done = None"
      using nodone by (auto simp: find_None_iff)
    then have "find ?Q A = Some (a, c)"
      using Cons.prems p at by (simp add: find_append)
    then show "P (a, c)" using cn by (simp add: P_def first_alias_def)
  qed
  show ?case
  proof (cases "P (a, c)")
    case True
    then have at: "a \<in> set (columns t)" and c: "c \<notin> set (columns ?t)"
      using Pp a_in by auto
    obtain vals where v: "getitem t a = Some vals"
      using at getitem_None_iff [of t a] by (cases "getitem t a") auto
    have step: "normalize_loop (p # rest) ?t (log @ G (filter P done))
        = normalize_loop rest (?t @ [(c, vals)]) ((log @ G (filter P done)) @ [column_mapping a c])"
      using c v get_a [OF at] by (simp add: p setitem_fresh)
    have "?t @ [(c, vals)] = t @ F (filter P (done @ [p]))"
      using True v by (simp add: p F_def)
    moreover have "(log @ G (filter P done)) @ [column_mapping a c] = log @ G (filter P (done @ [p]))"
      using True by (simp add: p G_def)
    ultimately show ?thesis
      using Cons.IH [OF A] step by simp
  next
    case False
    then have "\<not> (a \<in> set (columns ?t) \<and> c \<notin> set (columns ?t))"
      using Pp by simp
    then have step: "normalize_loop (p # rest) ?t (log @ G (filter P done))
        = normalize_loop rest ?t (log @ G (filter P done))"
      using getitem_None_iff [of ?t a] by (auto simp: p split: option.splits)
    have "filter P (done @ [p]) = filter P done" using False by (simp add: p)
    then show ?thesis
      using Cons.IH [OF A] step by simp
  qed
qed

lemma normalize_loop_char:
  assumes "set (map fst A) \<inter> set (map snd A) = {}" and "distinct (map fst A)"
  shows "normalize_loop A t log = (t @ shadow_columns A t, log @ mapping_entries A t)"
  using normalize_loop_suffix [OF assms, of "[]" A t log]
  by (simp add: shadow_columns_def mapping_entries_def applied_def)

lemma columns_append: "columns (t @ x) = columns t @ columns x"
  by (simp add: columns_def)

lemma columns_shadow: "columns (shadow_columns A t) = map snd (applied A t)"
  by (simp add: shadow_columns_def columns_def case_prod_unfold)

lemma applied_SomeD:
  "(a, c) \<in> set (applied A t) \<Longrightarrow>
     (a, c) \<in> set A \<and> a \<in> set (columns t) \<and> c \<notin> set (columns t)
     \<and> first_alias A t c = Some (a, c)"
  unfolding applied_def using first_alias_SomeD [of A t c a c] by simp

lemma first_alias_applied:
  "first_alias A t c = Some (a, c') \<Longrightarrow> c \<notin> set (columns t) \<Longrightarrow> (a, c) \<in> set (applied A t)"
proof -
  assume fa: "first_alias A t c = Some (a, c')" and cn: "c \<notin> set (columns t)"
  from first_alias_SomeD [OF fa] have "c' = c" and "(a, c') \<in> set A" by blast+
  then have "(a, c) \<in> set A" and "first_alias A t c = Some (a, c)" using fa by blast+
  with cn show ?thesis unfolding applied_def by simp
qed

lemma first_alias_exists:
  assumes "(a, c) \<in> set A" and "a \<in> set (columns t)"
  shows "\<exists>a0. first_alias A t c = Some (a0, c)"
proof (cases "first_alias A t c")
  case None
  then have "\<not> (\<exists>x. x \<in> set A \<and> (case x of (a, c') \<Rightarrow> c' = c \<and> a \<in> set (columns t)))"
    unfolding first_alias_def find_None_iff .
  with assms show ?thesis by blast
next
  case (Some y)
  obtain a0 c0 where y: "y = (a0, c0)" by (cases y)
  with Some first_alias_SomeD [of A t c a0 c0] show ?thesis by simp
qed

lemma map_of_shadow:
  "(a0, c) \<in> set L \<Longrightarrow> (\<And>a. (a, c) \<in> set L \<Longrightarrow> a = a0) \<Longrightarrow>
     map_of (map (\<lambda>(a, c). (c, g a)) L) c = Some (g a0)"
proof (induction L)
  case Nil
  then show ?case by simp
next
  case (Cons p L)
  obtain a1 c1 where p: "p = (a1, c1)" by (cases p)
  show ?case
  proof (cases "c1 = c")
    case True
    then have "a1 = a0" using Cons.prems(2) [of a1] p by simp
    then show ?thesis using True p by simp
  next
    case False
    then have "(a0, c) \<in> set L" using Cons.prems(1) p by simp
    moreover have "\<And>a. (a, c) \<in> set L \<Longrightarrow> a = a0" using Cons.prems(2) by simp
    ultimately have "map_of (map (\<lambda>(a, c). (c, g a)) L) c = Some (g a0)" by (rule Cons.IH)
    then show ?thesis using False p by simp
  qed
qed

lemma getitem_shadow:
  assumes fa: "first_alias A t c = Some (a0, c)" and cn: "c \<notin> set (columns t)"
  shows "getitem (t @ shadow_columns A t) c = getitem t a0"
proof -
  have in_app: "(a0, c) \<in> set (applied A t)"
    using fa cn by (rule first_alias_applied)
  have uniq: "a = a0" if "(a, c) \<in> set (applied A t)" for a
    using applied_SomeD [OF that] fa by simp
  have a0: "a0 \<in> set (columns t)"
    using first_alias_SomeD [OF fa] by blast
  then obtain vals where v: "getitem t a0 = Some vals"
    using getitem_None_iff [of t a0] by (cases "getitem t a0") blast+
  have "getitem (t @ shadow_columns A t) c = getitem (shadow_columns A t) c"
    using cn by (rule getitem_append_right)
  also have "\<dots> = Some (the (getitem t a0))"
    unfolding getitem_def shadow_columns_def
    using map_of_shadow [OF in_app uniq, of "\<lambda>a. the (map_of t a)"] by (simp add: getitem_def)
  finally show ?thesis using v by simp
qed

lemma distinct_shadow:
  assumes "distinct (map fst A)"
  shows "distinct (map snd (applied A t))"
proof -
  have "inj_on snd (set (applied A t))"
  proof (rule inj_onI)
    fix x y assume x: "x \<in> set (applied A t)" and y: "y \<in> set (applied A t)"
      and eq: "snd x = snd y"
    have "first_alias A t (snd x) = Some x"
      using applied_SomeD [of "fst x" "snd x" A t] x by simp
    moreover have "first_alias A t (snd y) = Some y"
      using applied_SomeD [of "fst y" "snd y" A t] y by simp
    ultimately show "x = y" using eq by (metis option.inject)
  qed
  moreover have "distinct A"
    using assms by (rule distinct_map [THEN iffD1, THEN conjunct1])
  then have "distinct (applied A t)"
    unfolding applied_def by (rule distinct_filter)
  ultimately show ?thesis unfolding distinct_map by blast
qed

lemma shadow_names_fresh:
  "set (columns t) \<inter> set (map snd (applied A t)) = {}"
proof -
  have "c \<notin> set (columns t)" if "c \<in> set (map snd (applied A t))" for c
  proof -
    from that obtain a where "(a, c) \<in> set (applied A t)" by force
    from applied_SomeD [OF this] show ?thesis by blast
  qed
  then show ?thesis by blast
qed

lemma wf_normalized:
  assumes "wf_table t" and "distinct (map fst A)"
  shows "wf_table (t @ shadow_columns A t)"
  using assms(1) distinct_shadow [OF assms(2), of t] shadow_names_fresh [of t A]
  by (simp add: wf_table_def columns_append columns_shadow)


lemma applied_fixpoint:
  assumes dis: "set (map fst A) \<inter> set (map snd A) = {}"
  shows "applied A (t @ shadow_columns A t) = []"
proof -
  let ?n = "t @ shadow_columns A t"
  have no: "\<not> (c \<notin> set (columns ?n) \<and> first_alias A ?n c = Some (a, c))"
    if mem: "(a, c) \<in> set A" for a c
  proof
    assume h: "c \<notin> set (columns ?n) \<and> first_alias A ?n c = Some (a, c)"
    then have fa: "first_alias A ?n c = Some (a, c)" by blast
    have an: "a \<in> set (columns ?n)" using first_alias_SomeD [OF fa] by blast
    have "a \<in> set (map fst A)" using mem by force
    then have "a \<notin> set (map snd A)" using dis by blast
    moreover have "set (map snd (applied A t)) \<subseteq> set (map snd A)"
      unfolding applied_def by auto
    ultimately have "a \<notin> set (columns (shadow_columns A t))"
      unfolding columns_shadow by blast
    with an have at: "a \<in> set (columns t)" by (simp add: columns_append)
    have ct: "c \<notin> set (columns t)" using h by (simp add: columns_append)
    obtain a0 where "first_alias A t c = Some (a0, c)"
      using first_alias_exists [OF mem at] by blast
    then have "(a0, c) \<in> set (applied A t)" using ct by (rule first_alias_applied)
    then have "c \<in> set (columns (shadow_columns A t))"
      unfolding columns_shadow by force
    with h show False by (simp add: columns_append)
  qed
  show ?thesis
    unfolding applied_def filter_empty_conv
  proof
    fix x assume x: "x \<in> set A"
    obtain a c where xc: "x = (a, c)" by (cases x)
    with no [of a c] x
    show "\<not> (case x of (a, c) \<Rightarrow> c \<notin> set (columns ?n) \<and> first_alias A ?n c = Some (a, c))"
      by simp
  qed
qed

lemma aliases_disjoint: "set (map fst COLUMN_ALIASES) \<inter> set (map snd COLUMN_ALIASES) = {}"
  by (simp add: COLUMN_ALIASES_def)

lemma aliases_distinct: "distinct (map fst COLUMN_ALIASES)"
  by (simp add: COLUMN_ALIASES_def)

lemma normalize_columns_eq:
  "normalize_columns h self =
     (length h,
      h @ [(h ! df self) @ shadow_columns COLUMN_ALIASES (h ! df self)],
      self\<lparr>corrections_log :=
        corrections_log self @ mapping_entries COLUMN_ALIASES (h ! df self)\<rparr>)"
  unfolding normalize_columns_def Let_def
  by (simp add: normalize_loop_char [OF aliases_disjoint aliases_distinct])

lemma normalized_table_eq:
  "normalized_table h self = (h ! df self) @ shadow_columns COLUMN_ALIASES (h ! df self)"
  unfolding normalized_table_def normalize_columns_eq by simp

lemma log_after_normalize_eq:
  "log_after_normalize h self =
     corrections_log self @ mapping_entries COLUMN_ALIASES (h ! df self)"
  unfolding log_after_normalize_def normalize_columns_eq by simp

lemma df_VisualizationUtils: "df (VisualizationUtils h r) = r"
  by (simp add: VisualizationUtils_def)

lemma normalize_eval_squad_club:
  "normalize_columns squad_club_store (VisualizationUtils squad_club_store 0)
     = (1, [[(''Squad'', [1]), (''Club'', [2])],
            [(''Squad'', [1]), (''Club'', [2]), (''Team'', [1])]],
        \<lparr>df = 0, original_columns = {''Squad'', ''Club''},
         corrections_log = [column_mapping ''Squad'' ''Team'']\<rparr>)"
  by (simp add: normalize_columns_def squad_club_store_def VisualizationUtils_def
      COLUMN_ALIASES_def getitem_def columns_def)

text \<open>
  Claim C2 as stated fails: in a table with the columns \<open>Squad\<close> and \<open>Club\<close> and no
  column \<open>Team\<close>, the entry \<open>Club\<close> to \<open>Team\<close> of the alias dictionary finds its alias
  in the table and no canonical column, yet the column \<open>Team\<close> of the normalized table
  holds the values of \<open>Squad\<close>, not those of \<open>Club\<close>.
\<close>

theorem normalize_columns_later_alias_counterexample:
  "(''Club'', ''Team'') \<in> set COLUMN_ALIASES
   \<and> ''Club'' \<in> set (columns (squad_club_store ! 0))
   \<and> ''Team'' \<notin> set (columns (squad_club_store ! 0))
   \<and> getitem (normalized_table squad_club_store (VisualizationUtils squad_club_store 0)) ''Team''
       \<noteq> getitem (squad_club_store ! 0) ''Club''"
  by (simp add: normalized_table_def normalize_eval_squad_club)
     (simp add: squad_club_store_def COLUMN_ALIASES_def getitem_def columns_def)


text \<open>
  Claim C2, amended. The normalized table is the original table followed by one
  shadow column per canonical name that the table lacks and for which some alias is a
  column of the table; that column holds the values of the first such alias in the
  order of the alias dictionary. Every column of the original table is kept with its
  values, the result has distinct column names again, and the log grows by exactly one
  entry per added column.
\<close>

theorem normalize_columns_first_alias:
  assumes "valid_ref h (df self)" and "wf_table (h ! df self)"
  shows "normalized_table h self
           = (h ! df self) @ shadow_columns COLUMN_ALIASES (h ! df self)
   \<and> wf_table (normalized_table h self)
   \<and> (\<forall>name \<in> set (columns (h ! df self)).
          getitem (normalized_table h self) name = getitem (h ! df self) name)
   \<and> (\<forall>(alias, canonical) \<in> set COLUMN_ALIASES.
          alias \<in> set (columns (h ! df self)) \<and> canonical \<notin> set (columns (h ! df self)) \<longrightarrow>
          (\<exists>a0. first_alias COLUMN_ALIASES (h ! df self) canonical = Some (a0, canonical)
             \<and> getitem (normalized_table h self) canonical = getitem (h ! df self) a0))
   \<and> log_after_normalize h self
         = corrections_log self @ mapping_entries COLUMN_ALIASES (h ! df self)
   \<and> length (mapping_entries COLUMN_ALIASES (h ! df self))
         = length (shadow_columns COLUMN_ALIASES (h ! df self))"
proof -
  let ?t = "h ! df self"
  have 1: "normalized_table h self = ?t @ shadow_columns COLUMN_ALIASES ?t"
    by (rule normalized_table_eq)
  have 2: "wf_table (normalized_table h self)"
    unfolding 1 using assms(2) aliases_distinct by (rule wf_normalized)
  have 3: "getitem (normalized_table h self) name = getitem ?t name"
    if "name \<in> set (columns ?t)" for name
    unfolding 1 using that by (rule getitem_append_left)
  have 4: "\<exists>a0. first_alias COLUMN_ALIASES ?t c = Some (a0, c)
             \<and> getitem (normalized_table h self) c = getitem ?t a0"
    if m: "(a, c) \<in> set COLUMN_ALIASES" and a: "a \<in> set (columns ?t)"
      and c: "c \<notin> set (columns ?t)" for a c
  proof -
    obtain a0 where fa: "first_alias COLUMN_ALIASES ?t c = Some (a0, c)"
      using first_alias_exists [OF m a] by blast
    have "getitem (normalized_table h self) c = getitem ?t a0"
      unfolding 1 using fa c by (rule getitem_shadow)
    with fa show ?thesis by blast
  qed
  have 5: "log_after_normalize h self = corrections_log self @ mapping_entries COLUMN_ALIASES ?t"
    by (rule log_after_normalize_eq)
  have 6: "length (mapping_entries COLUMN_ALIASES ?t) = length (shadow_columns COLUMN_ALIASES ?t)"
    by (simp add: mapping_entries_def shadow_columns_def)
  from 1 2 3 4 5 6 show ?thesis by blast
qed

theorem normalize_columns_first_alias_witness:
  "valid_ref squad_club_store 0 \<and> wf_table (squad_club_store ! 0)
   \<and> getitem (normalized_table squad_club_store (VisualizationUtils squad_club_store 0)) ''Team''
       = getitem (squad_club_store ! 0) ''Squad''
   \<and> getitem (normalized_table squad_club_store (VisualizationUtils squad_club_store 0)) ''Club''
       = getitem (squad_club_store ! 0) ''Club''"
proof -
  let ?self = "VisualizationUtils squad_club_store 0"
  have d: "df ?self = 0" by (rule df_VisualizationUtils)
  have v: "valid_ref squad_club_store (df ?self)"
    unfolding d by (simp add: valid_ref_def squad_club_store_def)
  have w: "wf_table (squad_club_store ! df ?self)"
    unfolding d by (simp add: wf_table_def columns_def squad_club_store_def)
  note inst = normalize_columns_first_alias [OF v w, unfolded d]
  have fa: "first_alias COLUMN_ALIASES (squad_club_store ! 0) ''Team'' = Some (''Squad'', ''Team'')"
    by (simp add: first_alias_def COLUMN_ALIASES_def squad_club_store_def columns_def)
  have "(''Squad'', ''Team'') \<in> set COLUMN_ALIASES"
    by (simp add: COLUMN_ALIASES_def)
  moreover have "''Squad'' \<in> set (columns (squad_club_store ! 0))"
    and "''Club'' \<in> set (columns (squad_club_store ! 0))"
    and "''Team'' \<notin> set (columns (squad_club_store ! 0))"
    by (simp_all add: squad_club_store_def columns_def)
  ultimately show ?thesis
    using inst fa v w d by force
qed

text \<open>
  Claim C7. Normalization is idempotent: normalizing the table that
  \<open>normalize_columns\<close> returned yields the same table again, and the second pass logs
  no mapping.
\<close>

theorem normalize_columns_idempotent:
  "(case normalize_twice h self of (r2, h2, self2) \<Rightarrow> h2 ! r2) = normalized_table h self
   \<and> (case normalize_twice h self of (r2, h2, self2) \<Rightarrow> corrections_log self2) = []"
proof -
  let ?n = "(h ! df self) @ shadow_columns COLUMN_ALIASES (h ! df self)"
  have fp: "applied COLUMN_ALIASES ?n = []"
    using aliases_disjoint by (rule applied_fixpoint)
  have "normalize_twice h self
      = (Suc (length h), (h @ [?n]) @ [?n @ shadow_columns COLUMN_ALIASES ?n],
         (VisualizationUtils (h @ [?n]) (length h))\<lparr>corrections_log :=
            corrections_log (VisualizationUtils (h @ [?n]) (length h))
              @ mapping_entries COLUMN_ALIASES ?n\<rparr>)"
    unfolding normalize_twice_def normalize_columns_eq
    by (simp add: df_VisualizationUtils)
  then show ?thesis
    using fp
    by (simp add: normalized_table_eq shadow_columns_def mapping_entries_def
        VisualizationUtils_def nth_append)
qed


theorem normalize_columns_idempotent_witness:
  "(case normalize_twice squad_club_store (VisualizationUtils squad_club_store 0)
      of (r2, h2, self2) \<Rightarrow> h2 ! r2)
     = [(''Squad'', [1]), (''Club'', [2]), (''Team'', [1])]"
  using normalize_columns_idempotent [of squad_club_store "VisualizationUtils squad_club_store 0"]
  by (simp add: normalized_table_def normalize_eval_squad_club)






section \<open>Properties of the extraction of code blocks\<close>

lemma str_find_None_iff: "str_find sub s = None \<longleftrightarrow> \<not> sublist sub s"
  by (induction s) (simp_all add: sublist_Cons_right)

lemma str_find_first:
  "(\<And>j. j < length pre \<Longrightarrow> \<not> prefix sub (drop j (pre @ sub @ post))) \<Longrightarrow>
     str_find sub (pre @ sub @ post) = Some (length pre)"
proof (induction pre)
  case Nil
  show ?case
  proof (cases "sub @ post")
    case Nil
    then show ?thesis by simp
  next
    case (Cons a list)
    have "prefix sub (sub @ post)" by simp
    then show ?thesis unfolding Cons by simp
  qed
next
  case (Cons c pre)
  have "\<not> prefix sub (c # pre @ sub @ post)"
    using Cons.prems [of 0] by simp
  moreover have "str_find sub (pre @ sub @ post) = Some (length pre)"
  proof (rule Cons.IH)
    fix j assume "j < length pre"
    then show "\<not> prefix sub (drop j (pre @ sub @ post))"
      using Cons.prems [of "Suc j"] by simp
  qed
  ultimately show ?case by simp
qed

lemma findall_python_skip:
  "\<not> prefix python_fence (c # s) \<Longrightarrow> findall_python (c # s) = findall_python s"
  by simp

lemma findall_python_marker: "findall_python (marker @ post) = findall_python post"
  by (simp add: marker_def python_fence_def)

lemma until_fence_first:
  "\<not> sublist fence (body @ ''``'') \<Longrightarrow> until_fence (body @ fence @ rest) = Some (body, rest)"
proof (induction body)
  case Nil
  show ?case by (simp add: fence_def)
next
  case (Cons c body)
  let ?a = "(c # body) @ ''``''"
  have np: "\<not> prefix fence ?a" and ns: "\<not> sublist fence (body @ ''``'')"
    using Cons.prems by (simp_all add: sublist_Cons_right)
  have "\<not> prefix fence ((c # body) @ fence @ rest)"
  proof
    assume p: "prefix fence ((c # body) @ fence @ rest)"
    have "(c # body) @ fence @ rest = ?a @ (CHR ''`'' # rest)"
      by (simp add: fence_def)
    then have "prefix ?a ((c # body) @ fence @ rest)" by (simp only: prefixI)
    moreover have "length fence \<le> length ?a" by (simp add: fence_def)
    ultimately have "prefix fence ?a" using p by (rule prefix_length_prefix [rotated])
    with np show False by blast
  qed
  then show ?case using Cons.IH [OF ns] by simp
qed

lemma findall_python_block:
  "\<not> sublist fence (body @ ''``'') \<Longrightarrow>
     findall_python (python_fence @ body @ fence @ rest) = body # findall_python rest"
  using until_fence_first [of body rest] by (simp add: python_fence_def)

lemma strip_trimmed:
  assumes "strip b \<noteq> []"
  shows "\<not> is_space (hd (strip b)) \<and> \<not> is_space (last (strip b))"
proof -
  let ?d = "dropWhile is_space b"
  let ?e = "dropWhile is_space (rev ?d)"
  have e: "?e \<noteq> []" using assms by (simp add: strip_def)
  then have d: "?d \<noteq> []" by (cases "?d") simp_all
  have "\<not> is_space (hd ?e)" using e by (rule hd_dropWhile)
  then have l: "\<not> is_space (last (strip b))"
    using e by (simp add: strip_def last_rev)
  obtain zs where zs: "rev ?d = zs @ ?e"
    by (metis takeWhile_dropWhile_id)
  have "hd (strip b) = last ?e" using e by (simp add: strip_def hd_rev)
  also have "\<dots> = last (rev ?d)" using e zs by (metis last_appendR)
  also have "\<dots> = hd ?d" using d by (simp add: last_rev)
  finally have "\<not> is_space (hd (strip b))" using d hd_dropWhile [of is_space b] by simp
  with l show ?thesis by blast
qed


text \<open>
  Claim C6. If the marker does not occur in the text, \<open>extract_code_blocks\<close> returns
  the blocks that the scan finds in the whole text, trimmed, in order, without those that
  are empty after trimming. If the text is \<open>pre\<close>, the marker, \<open>post\<close> and the marker does
  not occur earlier, it returns those of the text from the marker on, which are those of
  \<open>post\<close>. A tagged fence directly followed by a block free of fences and a closing fence
  contributes that block. Every block returned is non-empty and neither starts nor ends
  with whitespace. On the example of the specification the result is the single block
  \<open>X\<close>.
\<close>

theorem extract_code_blocks_marker:
  "(\<not> sublist marker text \<longrightarrow>
      extract_code_blocks text
        = map strip (filter (\<lambda>block. strip block \<noteq> []) (findall_python text)))
   \<and> (\<forall>pre post.
        text = pre @ marker @ post \<and> (\<forall>j < length pre. \<not> prefix marker (drop j text)) \<longrightarrow>
        extract_code_blocks text
          = map strip (filter (\<lambda>block. strip block \<noteq> []) (findall_python (marker @ post)))
        \<and> findall_python (marker @ post) = findall_python post)
   \<and> (\<forall>body rest. \<not> sublist fence (body @ ''``'') \<longrightarrow>
        findall_python (python_fence @ body @ fence @ rest) = body # findall_python rest)
   \<and> (\<forall>block \<in> set (extract_code_blocks text).
        block \<noteq> [] \<and> \<not> is_space (hd block) \<and> \<not> is_space (last block))
   \<and> extract_code_blocks example_report = [''X'']"
proof -
  have absent: "extract_code_blocks text
        = map strip (filter (\<lambda>block. strip block \<noteq> []) (findall_python text))"
    if "\<not> sublist marker text"
    using that str_find_None_iff [of marker "text"] by (simp add: extract_code_blocks_def)
  have present: "extract_code_blocks text
          = map strip (filter (\<lambda>block. strip block \<noteq> []) (findall_python (marker @ post)))
        \<and> findall_python (marker @ post) = findall_python post"
    if t: "text = pre @ marker @ post"
      and first: "\<forall>j < length pre. \<not> prefix marker (drop j text)" for pre post
  proof -
    have "str_find marker (pre @ marker @ post) = Some (length pre)"
      using first unfolding t by (intro str_find_first) blast
    then show ?thesis
      unfolding t by (simp add: extract_code_blocks_def findall_python_marker)
  qed
  have trimmed: "block \<noteq> [] \<and> \<not> is_space (hd block) \<and> \<not> is_space (last block)"
    if "block \<in> set (extract_code_blocks text)" for block
  proof -
    from that obtain b where "block = strip b" "strip b \<noteq> []"
      by (auto simp: extract_code_blocks_def Let_def)
    then show ?thesis using strip_trimmed [of b] by simp
  qed
  have example: "extract_code_blocks example_report = [''X'']"
    by (simp add: extract_code_blocks_def example_report_def marker_def python_fence_def
        fence_def newline_def strip_def is_space_def)
  from absent present trimmed example findall_python_block show ?thesis
    by blast
qed

theorem extract_code_blocks_marker_witness:
  "example_report = ''prose '' @ marker @ ('' '' @ [newline] @ ''```python'' @ [newline]
       @ ''X'' @ [newline] @ ''```'')
   \<and> str_find marker example_report = Some 6
   \<and> map strip (filter (\<lambda>block. strip block \<noteq> [])
        (findall_python ('' '' @ [newline] @ ''```python'' @ [newline]
           @ ''X'' @ [newline] @ ''```''))) = [''X'']
   \<and> extract_code_blocks example_report = [''X'']
   \<and> extract_code_blocks (''```python'' @ [newline] @ ''Y'' @ [newline] @ ''```'') = [''Y'']"
proof -
  let ?post = "'' '' @ [newline] @ ''```python'' @ [newline] @ ''X'' @ [newline] @ ''```''"
  let ?legacy = "''```python'' @ [newline] @ ''Y'' @ [newline] @ ''```''"
  have split: "example_report = ''prose '' @ marker @ ?post"
    by (simp add: example_report_def marker_def)
  have idx: "str_find marker example_report = Some 6"
    by (simp add: example_report_def marker_def newline_def)
  have first: "\<forall>j < length ''prose ''. \<not> prefix marker (drop j example_report)"
    by (simp add: example_report_def marker_def newline_def All_less_Suc2)
  have blocks: "map strip (filter (\<lambda>block. strip block \<noteq> []) (findall_python ?post)) = [''X'']"
    by (simp add: python_fence_def fence_def newline_def strip_def is_space_def)
  have absent: "\<not> sublist marker ?legacy"
    using str_find_None_iff [of marker ?legacy]
    by (simp add: marker_def newline_def)
  have legacy: "map strip (filter (\<lambda>block. strip block \<noteq> []) (findall_python ?legacy)) = [''Y'']"
    by (simp add: python_fence_def fence_def newline_def strip_def is_space_def)
  have "extract_code_blocks example_report = [''X'']"
    using extract_code_blocks_marker [of example_report] split first blocks
      findall_python_marker [of ?post]
    by metis
  moreover have "extract_code_blocks ?legacy = [''Y'']"
    using extract_code_blocks_marker [of ?legacy] absent legacy by metis
  ultimately show ?thesis using split idx blocks by blast
qed

section \<open>Properties of the code auto-repair\<close>

lemmas difflib_defs =
  get_close_matches_def ratio_def quick_ratio_def real_quick_ratio_def calculate_ratio_def
  reaches_cutoff_def find_longest_match_def new_row_def popular_def pair_greater_def
  score_eq_def score_less_def Let_def

lemma close_match_players:
  "get_close_matches ''Players'' [''Player'', ''Team''] = [''Player'']"
  by (simp add: difflib_defs)

lemma close_match_zzz: "get_close_matches ''zzz'' [''Player'', ''Team''] = []"
  by (simp add: difflib_defs)

lemma close_match_backslash:
  "get_close_matches ''Player'' [backslash_column] = [backslash_column]"
  by (simp add: difflib_defs backslash_column_def backslash_def)

lemma ratio_players: "ratio ''Player'' ''Players'' = (12, 13)"
  by (simp add: difflib_defs)

lemma columns_player_team:
  "columns (player_team_store ! df (VisualizationUtils player_team_store 0))
     = [''Player'', ''Team'']"
  by (simp add: player_team_store_def VisualizationUtils_def columns_def)

lemma columns_backslash:
  "columns (backslash_store ! df (VisualizationUtils backslash_store 0)) = [backslash_column]"
  by (simp add: backslash_store_def VisualizationUtils_def columns_def)

lemma replacement_loop_none:
  assumes "\<forall>(wrong, right) \<in> set rs. \<not> contains wrong code"
  shows "replacement_loop rs code corrections = (code, corrections)"
  using assms by (induction rs) auto

lemma template_bad_escape:
  "parse_template (column_replacement backslash_column) = Inl ReError"
  by (simp add: column_replacement_def apostrophe_def backslash_column_def backslash_def
      escape_at_def simple_escape_def is_digit_def is_ascii_letter_def)


lemma no_replacement_in_player_ref:
  "replacement_loop replacements ''df['Player']'' [] = (''df['Player']'', [])"
  by (rule replacement_loop_none) (simp add: replacements_def contains_def)

lemma no_replacement_in_zzz_ref:
  "replacement_loop replacements ''df['zzz']'' [] = (''df['zzz']'', [])"
  by (rule replacement_loop_none) (simp add: replacements_def contains_def)

lemma scan_player_ref: "findall_columns ''df['Player']'' = [''Player'']"
  by (simp add: column_at_def is_quote_def newline_def)

lemma scan_zzz_ref: "findall_columns ''df['zzz']'' = [''zzz'']"
  by (simp add: column_at_def is_quote_def newline_def)

text \<open>
  Claim C5 fails on the code: for a table whose only column is named \<open>Play\<bsol>er\<close> and the
  code \<open>df['Player']\<close>, the closest column is \<open>Play\<bsol>er\<close>, \<open>re.sub\<close> reads the
  replacement \<open>df['Play\<bsol>er']\<close> as a template with the bad escape \<open>\<bsol>e\<close>, and
  \<open>auto_fix_plot_code\<close> raises \<open>re.error\<close>, whatever the formatter.
\<close>

theorem auto_fix_raises_on_backslash_column:
  "auto_fix_plot_code fix_code backslash_store (VisualizationUtils backslash_store 0)
     ''df['Player']'' = Inl ReError"
proof -
  have "''Player'' \<notin> set [backslash_column]"
    by (simp add: backslash_column_def backslash_def)
  then show ?thesis
    by (simp add: auto_fix_plot_code_def no_replacement_in_player_ref scan_player_ref
        columns_backslash close_match_backslash re_sub_column_def template_bad_escape
        del: findall_columns.simps)
qed

text \<open>
  The parts of claim C5 that hold. A reference without a close match is left as it is
  and a warning is logged; and when the formatter raises, the code as it stood before
  formatting is returned, with the failure logged.
\<close>

lemma auto_fix_warns_on_zzz:
  "auto_fix_plot_code fix_code player_team_store (VisualizationUtils player_team_store 0)
     ''df['zzz']''
   = (case fix_code ''df['zzz']'' of
        Inr formatted \<Rightarrow>
          Inr (formatted, [column_warning ''zzz'', ''Code auto-formatted with autopep8''])
      | Inl message \<Rightarrow>
          Inr (''df['zzz']'', [column_warning ''zzz'', ''Auto-formatting failed: '' @ message]))"
  by (simp add: auto_fix_plot_code_def no_replacement_in_zzz_ref scan_zzz_ref
      columns_player_team close_match_zzz del: findall_columns.simps split: sum.splits)

lemma auto_fix_keeps_code_when_formatter_fails:
  assumes "auto_fix_plot_code keep_code h self code = Inr (fixed_code, corrections)"
    and "fix_code fixed_code = Inl message"
  shows "auto_fix_plot_code fix_code h self code
     = Inr (fixed_code, butlast corrections @ [''Auto-formatting failed: '' @ message])"
  using assms unfolding auto_fix_plot_code_def keep_code_def
  by (auto split: prod.splits sum.splits)

lemma column_loop_skip:
  "set ms \<subseteq> set cols \<Longrightarrow> column_loop cols ms code corr = Inr (code, corr)"
  by (induction ms) simp_all

lemma column_loop_skip_prefix:
  "set us \<subseteq> set cols \<Longrightarrow> column_loop cols (us @ ms) code corr = column_loop cols ms code corr"
  by (induction us) simp_all

lemma column_loop_single:
  assumes "filter (\<lambda>col. col \<notin> set cols) ms = [m]"
    and "get_close_matches m cols = [close]"
    and "re_sub_column m (column_replacement close) code = Inr code'"
  shows "column_loop cols ms code corr = Inr (code', corr @ [column_fix m close])"
proof -
  from assms(1) obtain us vs where ms: "ms = us @ m # vs"
    and us: "\<forall>u \<in> set us. \<not> u \<notin> set cols" and m: "m \<notin> set cols"
    and vs: "[] = filter (\<lambda>col. col \<notin> set cols) vs"
    unfolding filter_eq_Cons_iff by blast
  have "set us \<subseteq> set cols" using us by blast
  moreover have "set vs \<subseteq> set cols"
    using vs by (metis (mono_tags, lifting) filter_empty_conv subsetI)
  ultimately show ?thesis
    unfolding ms using m assms(2,3)
    by (simp add: column_loop_skip_prefix column_loop_skip)
qed

lemma template_player:
  "parse_template (column_replacement ''Player'') = Inr (map Literal (column_replacement ''Player''))"
  by (simp add: column_replacement_def apostrophe_def backslash_def)

lemma expand_literals: "expand_template (map Literal r) whole = r"
  by (induction r) (simp_all add: expand_template_def)

lemma code_fix_not_column_fix: "\<not> is_column_fix (code_fix wrong right)"
  by (simp add: is_column_fix_def code_fix_def)

lemma column_fix_is_column_fix: "is_column_fix (column_fix col close)"
  by (simp add: is_column_fix_def column_fix_def)

lemma warning_not_column_fix: "\<not> is_column_fix (column_warning col)"
  by (simp add: is_column_fix_def column_warning_def)

lemma replacement_loop_entries:
  assumes "replacement_loop rs code corr = (code', corr')"
  shows "\<exists>fs. corr' = corr @ fs \<and> (\<forall>e \<in> set fs. \<exists>w r. e = code_fix w r)"
  using assms
proof (induction rs arbitrary: code corr)
  case Nil
  then show ?case by simp
next
  case (Cons p rs)
  obtain wrong right where p: "p = (wrong, right)" by (cases p)
  show ?case
  proof (cases "contains wrong code")
    case True
    with Cons.prems p have "replacement_loop rs (str_replace wrong right code)
        (corr @ [code_fix wrong right]) = (code', corr')" by simp
    from Cons.IH [OF this] obtain fs where
      "corr' = (corr @ [code_fix wrong right]) @ fs"
      and "\<forall>e \<in> set fs. \<exists>w r. e = code_fix w r" by blast
    then have "corr' = corr @ (code_fix wrong right # fs)
        \<and> (\<forall>e \<in> set (code_fix wrong right # fs). \<exists>w r. e = code_fix w r)"
      by auto
    then show ?thesis by blast
  next
    case False
    with Cons.prems p have "replacement_loop rs code corr = (code', corr')" by simp
    from Cons.IH [OF this] show ?thesis .
  qed
qed

text \<open>After the rewriting to \<open>df['Player']\<close>, no reference to \<open>Players\<close> is left.\<close>

lemma column_ref_at_iff:
  "column_ref_at col s \<longleftrightarrow>
     (\<exists>q1 q2. is_quote q1 \<and> is_quote q2 \<and> prefix (''df['' @ [q1] @ col @ [q2] @ '']'') s)"
  by (auto simp: column_ref_at_def is_quote_def)

lemma sub_refs_copies_prefix:
  assumes "CHR ''d'' \<notin> set p" and "prefix p (sub_refs col (map Literal (CHR ''d'' # r)) s)"
  shows "prefix p s"
  using assms
proof (induction p arbitrary: s)
  case Nil
  show ?case by simp
next
  case (Cons x p)
  show ?case
  proof (cases s)
    case Nil
    with Cons.prems show ?thesis by simp
  next
    case (Cons c s')
    show ?thesis
    proof (cases "column_ref_at col (c # s')")
      case True
      then have "sub_refs col (map Literal (CHR ''d'' # r)) s
          = (CHR ''d'' # r) @ sub_refs col (map Literal (CHR ''d'' # r)) (drop (length col + 5) s')"
        unfolding Cons by (simp add: expand_literals del: map_append list.map)
      with Cons.prems(2) have "x = CHR ''d''" by simp
      with Cons.prems(1) show ?thesis by simp
    next
      case False
      then have "sub_refs col (map Literal (CHR ''d'' # r)) s
          = c # sub_refs col (map Literal (CHR ''d'' # r)) s'"
        unfolding Cons by simp
      with Cons.prems(2) have "x = c"
        and "prefix p (sub_refs col (map Literal (CHR ''d'' # r)) s')" by simp_all
      moreover have "CHR ''d'' \<notin> set p" using Cons.prems(1) by simp
      ultimately show ?thesis unfolding Cons using Cons.IH by simp
    qed
  qed
qed


lemma player_replacement_head:
  "column_replacement ''Player'' = CHR ''d'' # (''f['' @ apostrophe @ ''Player'' @ apostrophe @ '']'')"
  by (simp add: column_replacement_def)

lemma no_ref_inside_replacement:
  assumes "n < 12"
  shows "\<not> column_ref_at ''Players'' (drop n (column_replacement ''Player'') @ x)"
proof -
  from assms have "n \<in> {0, 1, 2, 3, 4, 5, 6, 7, 8, 9, 10, 11}" by simp arith
  then show ?thesis
    by (auto simp: column_ref_at_def column_replacement_def apostrophe_def)
qed

lemma no_players_ref_left:
  "\<not> column_ref_at ''Players''
       (drop n (sub_refs ''Players'' (map Literal (column_replacement ''Player'')) s))"
proof (induction s arbitrary: n rule: length_induct)
  case (1 s)
  let ?lits = "map Literal (column_replacement ''Player'')"
  show ?case
  proof (cases s)
    case Nil
    then show ?thesis by (simp add: column_ref_at_def)
  next
    case (Cons c s')
    show ?thesis
    proof (cases "column_ref_at ''Players'' (c # s')")
      case True
      let ?x = "sub_refs ''Players'' ?lits (drop 12 s')"
      have out: "sub_refs ''Players'' ?lits s = column_replacement ''Player'' @ ?x"
        unfolding Cons using True by (simp add: expand_literals)
      have len: "length (column_replacement ''Player'') = 12"
        by (simp add: column_replacement_def apostrophe_def)
      show ?thesis
      proof (cases "n < 12")
        case True
        then have "drop n (sub_refs ''Players'' ?lits s)
            = drop n (column_replacement ''Player'') @ ?x"
          unfolding out by (simp add: len)
        then show ?thesis using no_ref_inside_replacement [OF True] by simp
      next
        case False
        then have "drop n (sub_refs ''Players'' ?lits s) = drop (n - 12) ?x"
          unfolding out by (simp add: len)
        moreover have "length (drop 12 s') < length s" unfolding Cons by simp
        ultimately show ?thesis using "1.IH" by simp
      qed
    next
      case False
      have out: "sub_refs ''Players'' ?lits s = c # sub_refs ''Players'' ?lits s'"
        unfolding Cons using False by simp
      show ?thesis
      proof (cases n)
        case 0
        show ?thesis
        proof
          assume "column_ref_at ''Players'' (drop n (sub_refs ''Players'' ?lits s))"
          then obtain q1 q2 where q: "is_quote q1" "is_quote q2"
            and p: "prefix (''df['' @ [q1] @ ''Players'' @ [q2] @ '']'')
                      (c # sub_refs ''Players'' ?lits s')"
            unfolding 0 out column_ref_at_iff by auto
          let ?p = "''f['' @ [q1] @ ''Players'' @ [q2] @ '']''"
          from p have c: "c = CHR ''d''" and p': "prefix ?p (sub_refs ''Players'' ?lits s')"
            by simp_all
          have "CHR ''d'' \<notin> set ?p" using q by (auto simp: is_quote_def)
          then have "prefix ?p s'"
            using p' unfolding player_replacement_head by (rule sub_refs_copies_prefix)
          then have "prefix (''df['' @ [q1] @ ''Players'' @ [q2] @ '']'') (c # s')"
            using c by simp
          then have "column_ref_at ''Players'' (c # s')"
            unfolding column_ref_at_iff using q by blast
          with False show False by blast
        qed
      next
        case (Suc m)
        have "length s' < length s" unfolding Cons by simp
        then have "\<not> column_ref_at ''Players'' (drop m (sub_refs ''Players'' ?lits s'))"
          using "1.IH" by blast
        then show ?thesis unfolding Suc out by simp
      qed
    qed
  qed
qed

text \<open>
  Claim C4 as stated fails: with the column \<open>Player\<close> in the table and the code
  \<open>df['Players']df['Players']\<close>, which references \<open>df['Players']\<close>, both references are
  rewritten but two column-fix entries are appended, one for each name that the scan
  found.
\<close>

theorem auto_fix_two_entries_counterexample:
  "''Player'' \<in> set (columns (player_team_store ! 0))
   \<and> contains ''df['Players']'' two_references
   \<and> auto_fix_plot_code keep_code player_team_store (VisualizationUtils player_team_store 0)
         two_references
       = Inr (''df['Player']df['Player']'',
              [column_fix ''Players'' ''Player'', column_fix ''Players'' ''Player'',
               ''Code auto-formatted with autopep8''])
   \<and> length (filter is_column_fix
         [column_fix ''Players'' ''Player'', column_fix ''Players'' ''Player'',
          ''Code auto-formatted with autopep8'']) = 2"
proof -
  have c: "''Player'' \<in> set (columns (player_team_store ! 0))"
    by (simp add: player_team_store_def columns_def)
  have r: "contains ''df['Players']'' two_references"
    by (simp add: contains_def two_references_def)
  have l: "replacement_loop replacements two_references [] = (two_references, [])"
    by (rule replacement_loop_none) (simp add: replacements_def contains_def two_references_def)
  have s: "findall_columns two_references = [''Players'', ''Players'']"
    by (simp add: two_references_def column_at_def is_quote_def newline_def)
  have m: "''Players'' \<notin> set [''Player'', ''Team'']" by simp
  have s1: "sub_refs ''Players'' (map Literal (column_replacement ''Player'')) two_references
      = ''df['Player']df['Player']''"
    by (simp add: two_references_def column_ref_at_def expand_literals)
       (simp add: column_replacement_def apostrophe_def)
  have s2: "sub_refs ''Players'' (map Literal (column_replacement ''Player''))
      ''df['Player']df['Player']'' = ''df['Player']df['Player']''"
    by (simp add: column_ref_at_def)
  have a: "auto_fix_plot_code keep_code player_team_store
        (VisualizationUtils player_team_store 0) two_references
       = Inr (''df['Player']df['Player']'',
              [column_fix ''Players'' ''Player'', column_fix ''Players'' ''Player'',
               ''Code auto-formatted with autopep8''])"
    using m
    by (simp add: auto_fix_plot_code_def l s columns_player_team close_match_players
        re_sub_column_def template_player s1 s2 keep_code_def
        del: findall_columns.simps sub_refs.simps)
  have n: "length (filter is_column_fix
         [column_fix ''Players'' ''Player'', column_fix ''Players'' ''Player'',
          ''Code auto-formatted with autopep8'']) = 2"
    by (simp add: column_fix_is_column_fix) (simp add: is_column_fix_def)
  from c r a n show ?thesis by blast
qed


text \<open>
  Claim C4, amended. Let \<open>Players\<close> be no column of the table and \<open>Player\<close> its
  closest match (as it is among the columns \<open>Player\<close> and \<open>Team\<close>, where the ratio
  12/13 exceeds the cutoff), and let the scan of the code find, among the names that
  are no columns, the name \<open>Players\<close> once and no other. Then \<open>auto_fix_plot_code\<close>
  returns; the code it hands to the formatter is the code after the fixed replacements
  with every reference to \<open>Players\<close> rewritten to \<open>df['Player']\<close>, so that no such
  reference is left in it; and exactly one entry of the corrections list is a
  column-fix entry, the one for \<open>Players\<close> and \<open>Player\<close>.
\<close>

theorem auto_fix_players_reference:
  assumes "''Players'' \<notin> set (columns (h ! df self))"
    and "get_close_matches ''Players'' (columns (h ! df self)) = [''Player'']"
    and "replacement_loop replacements code [] = (replaced, fs)"
    and "filter (\<lambda>col. col \<notin> set (columns (h ! df self))) (findall_columns replaced)
           = [''Players'']"
  shows "\<exists>rewritten corrections.
           rewritten = sub_refs ''Players'' (map Literal (column_replacement ''Player'')) replaced
         \<and> (\<forall>n. \<not> column_ref_at ''Players'' (drop n rewritten))
         \<and> auto_fix_plot_code fix_code h self code
             = Inr (case fix_code rewritten of Inr formatted \<Rightarrow> formatted | Inl m \<Rightarrow> rewritten,
                    corrections)
         \<and> filter is_column_fix corrections = [column_fix ''Players'' ''Player'']
         \<and> ratio ''Player'' ''Players'' = (12, 13) \<and> reaches_cutoff (12, 13)"
proof -
  let ?rewritten = "sub_refs ''Players'' (map Literal (column_replacement ''Player'')) replaced"
  let ?last = "case fix_code ?rewritten of
                 Inr formatted \<Rightarrow> ''Code auto-formatted with autopep8''
               | Inl m \<Rightarrow> ''Auto-formatting failed: '' @ m"
  let ?corrections = "fs @ [column_fix ''Players'' ''Player''] @ [?last]"
  have sub: "re_sub_column ''Players'' (column_replacement ''Player'') replaced = Inr ?rewritten"
    by (simp add: re_sub_column_def template_player)
  have loop: "column_loop (columns (h ! df self)) (findall_columns replaced) replaced fs
      = Inr (?rewritten, fs @ [column_fix ''Players'' ''Player''])"
    using assms(4) assms(2) sub by (rule column_loop_single)
  have result: "auto_fix_plot_code fix_code h self code
      = Inr (case fix_code ?rewritten of Inr formatted \<Rightarrow> formatted | Inl m \<Rightarrow> ?rewritten,
             ?corrections)"
    unfolding auto_fix_plot_code_def assms(3) by (simp add: loop split: sum.splits)
  obtain es where "fs = [] @ es" and es: "\<forall>e \<in> set es. \<exists>w r. e = code_fix w r"
    using replacement_loop_entries [OF assms(3)] by blast
  then have "\<forall>e \<in> set fs. \<not> is_column_fix e"
    using code_fix_not_column_fix by auto
  then have f1: "filter is_column_fix fs = []" by (simp add: filter_empty_conv)
  have f2: "\<not> is_column_fix ?last"
    by (simp add: is_column_fix_def split: sum.splits)
  have count: "filter is_column_fix ?corrections = [column_fix ''Players'' ''Player'']"
    using f1 f2 by (simp add: column_fix_is_column_fix)
  have "reaches_cutoff (12, 13)" by (simp add: reaches_cutoff_def)
  with result count no_players_ref_left ratio_players show ?thesis by blast
qed

theorem auto_fix_players_reference_witness:
  "''Players'' \<notin> set (columns (player_team_store ! df (VisualizationUtils player_team_store 0)))
   \<and> get_close_matches ''Players''
         (columns (player_team_store ! df (VisualizationUtils player_team_store 0))) = [''Player'']
   \<and> findall_columns plot_call = [''Players'', ''Team'']
   \<and> (\<exists>corrections.
         auto_fix_plot_code keep_code player_team_store (VisualizationUtils player_team_store 0)
           plot_call = Inr (''plot(df['Player'], df['Team'])'', corrections)
         \<and> filter is_column_fix corrections = [column_fix ''Players'' ''Player''])"
proof -
  let ?self = "VisualizationUtils player_team_store 0"
  have a1: "''Players'' \<notin> set (columns (player_team_store ! df ?self))"
    unfolding columns_player_team by simp
  have a2: "get_close_matches ''Players'' (columns (player_team_store ! df ?self)) = [''Player'']"
    unfolding columns_player_team by (rule close_match_players)
  have a3: "replacement_loop replacements plot_call [] = (plot_call, [])"
    by (rule replacement_loop_none) (simp add: replacements_def contains_def plot_call_def)
  have scan: "findall_columns plot_call = [''Players'', ''Team'']"
    by (simp add: plot_call_def column_at_def is_quote_def newline_def)
  have a4: "filter (\<lambda>col. col \<notin> set (columns (player_team_store ! df ?self)))
      (findall_columns plot_call) = [''Players'']"
    unfolding columns_player_team scan by simp
  have rw: "sub_refs ''Players'' (map Literal (column_replacement ''Player'')) plot_call
      = ''plot(df['Player'], df['Team'])''"
    by (simp add: plot_call_def column_ref_at_def expand_literals)
       (simp add: column_replacement_def apostrophe_def)
  from auto_fix_players_reference [OF a1 a2 a3 a4, of keep_code]
  obtain corrections where
    "auto_fix_plot_code keep_code player_team_store ?self plot_call
       = Inr (case keep_code (sub_refs ''Players'' (map Literal (column_replacement ''Player''))
                plot_call) of Inr formatted \<Rightarrow> formatted
              | Inl m \<Rightarrow> sub_refs ''Players'' (map Literal (column_replacement ''Player''))
                  plot_call, corrections)"
    and "filter is_column_fix corrections = [column_fix ''Players'' ''Player'']"
    by blast
  then have "\<exists>corrections.
         auto_fix_plot_code keep_code player_team_store ?self plot_call
           = Inr (''plot(df['Player'], df['Team'])'', corrections)
         \<and> filter is_column_fix corrections = [column_fix ''Players'' ''Player'']"
    unfolding rw keep_code_def by simp
  with a1 a2 scan show ?thesis by blast
qed

lemma contains_iff: "contains sub s \<longleftrightarrow> sublist sub s"
  by (simp add: contains_def str_find_None_iff)

lemma replace_all_same_aux:
  "new = old \<Longrightarrow> old \<noteq> [] \<Longrightarrow> replace_all old new s = s"
proof (induction old new s rule: replace_all.induct)
  case (1 old new)
  show ?case by simp
next
  case (2 old new c s)
  show ?case
  proof (cases "prefix old (c # s)")
    case True
    then obtain rest where r: "c # s = old @ rest" by (auto simp: prefix_def)
    obtain x xs where o: "old = x # xs" using "2.prems"(2) by (cases old) auto
    have dr: "drop (length old - 1) s = rest" using r o by auto
    have ih: "replace_all old new (drop (length old - 1) s) = drop (length old - 1) s"
      using True "2.prems" by (rule "2.IH"(1))
    have "replace_all old new (c # s) = new @ replace_all old new (drop (length old - 1) s)"
      using True by simp
    also have "\<dots> = old @ rest" using ih "2.prems"(1) unfolding dr by simp
    also have "\<dots> = c # s" using r by simp
    finally show ?thesis .
  next
    case False
    then show ?thesis using "2.IH"(2) "2.prems" by simp
  qed
qed

lemma replace_all_same: "old \<noteq> [] \<Longrightarrow> replace_all old old s = s"
  by (rule replace_all_same_aux) simp_all

lemma str_replace_same: "str_replace old old s = s"
proof (cases "old = []")
  case True
  have "concat (map (\<lambda>c. [c]) s) = s" by (induction s) simp_all
  with True show ?thesis by (simp add: str_replace_def)
next
  case False
  then show ?thesis by (simp add: str_replace_def replace_all_same)
qed

lemma prefix_before_d:
  assumes "CHR ''d'' \<notin> set old"
  shows "prefix old (p @ CHR ''d'' # rest) \<longleftrightarrow> prefix old p"
proof
  assume "prefix old (p @ CHR ''d'' # rest)"
  then consider "prefix old p" | us where "old = p @ us" "prefix us (CHR ''d'' # rest)"
    unfolding prefix_append by blast
  then show "prefix old p"
  proof cases
    case 1
    then show ?thesis .
  next
    case 2
    show ?thesis
    proof (cases us)
      case Nil
      with 2 show ?thesis by simp
    next
      case (Cons u us')
      with 2 have "u = CHR ''d''" by simp
      with 2 Cons assms show ?thesis by simp
    qed
  qed
next
  assume "prefix old p"
  then show "prefix old (p @ CHR ''d'' # rest)" by (rule prefix_prefix)
qed

lemma replace_all_before_d:
  assumes "CHR ''d'' \<notin> set old"
  shows "replace_all old new (pre @ CHR ''d'' # rest)
     = replace_all old new pre @ replace_all old new (CHR ''d'' # rest)"
  using assms
proof (induction old new pre rule: replace_all.induct)
  case (1 old new)
  show ?case by simp
next
  case (2 old new c s)
  have iff: "prefix old ((c # s) @ CHR ''d'' # rest) \<longleftrightarrow> prefix old (c # s)"
    using "2.prems" by (rule prefix_before_d)
  show ?case
  proof (cases "prefix old (c # s)")
    case True
    then have "length old \<le> length (c # s)" by (rule prefix_length_le)
    then have d: "drop (length old - 1) (s @ CHR ''d'' # rest)
        = drop (length old - 1) s @ CHR ''d'' # rest" by simp
    have "replace_all old new (drop (length old - 1) s @ CHR ''d'' # rest)
        = replace_all old new (drop (length old - 1) s) @ replace_all old new (CHR ''d'' # rest)"
      using True "2.prems" by (rule "2.IH"(1))
    then show ?thesis using True iff d by simp
  next
    case False
    have "replace_all old new (s @ CHR ''d'' # rest)
        = replace_all old new s @ replace_all old new (CHR ''d'' # rest)"
      using False "2.prems" by (rule "2.IH"(2))
    then show ?thesis using False iff by simp
  qed
qed

text \<open>
  None of the six replacements before the last one removes an occurrence of
  \<open>df.plot()\<close>: they hold no \<open>d\<close>, and none of them starts inside \<open>df.plot()\<close>.
\<close>

lemma butlast_replacements:
  "butlast replacements =
    [(''mplsoccer()'', ''Pitch()''),
     (''mplsoccer.Pitch()'', ''Pitch()''),
     (''from mplsoccer import *'', ''from mplsoccer import Pitch''),
     (''plt.show()()'', ''plt.show()''),
     (''plt.plt.'', ''plt.''),
     (''plt..'', ''plt.'')]"
  by (simp add: replacements_def)

lemma earlier_replacement_cases:
  assumes "(old, new) \<in> set (butlast replacements)"
  shows "old = ''mplsoccer()'' \<or> old = ''mplsoccer.Pitch()''
    \<or> old = ''from mplsoccer import *'' \<or> old = ''plt.show()()''
    \<or> old = ''plt.plt.'' \<or> old = ''plt..''"
proof -
  from assms have "fst (old, new) \<in> fst ` set (butlast replacements)" by (rule imageI)
  then have "old \<in> set [''mplsoccer()'', ''mplsoccer.Pitch()'', ''from mplsoccer import *'',
      ''plt.show()()'', ''plt.plt.'', ''plt..'']"
    unfolding butlast_replacements by simp
  then show ?thesis by simp
qed

lemma replace_all_through_df_plot:
  assumes "(old, new) \<in> set (butlast replacements)"
  shows "replace_all old new (''df.plot()'' @ post) = ''df.plot()'' @ replace_all old new post"
  using earlier_replacement_cases [OF assms] by (elim disjE) simp_all

lemma df_plot_survives:
  assumes "(old, new) \<in> set (butlast replacements)" and "contains ''df.plot()'' s"
  shows "contains ''df.plot()'' (str_replace old new s)"
proof -
  from assms(2) obtain pre post where s: "s = pre @ ''df.plot()'' @ post"
    unfolding contains_iff sublist_def by blast
  have d: "CHR ''d'' \<notin> set old"
    using earlier_replacement_cases [OF assms(1)] by (elim disjE) simp_all
  have ne: "old \<noteq> []"
    using earlier_replacement_cases [OF assms(1)] by (elim disjE) simp_all
  have "replace_all old new s
      = replace_all old new pre @ replace_all old new (''df.plot()'' @ post)"
    unfolding s using replace_all_before_d [OF d, of new pre "''f.plot()'' @ post"] by simp
  also have "\<dots> = replace_all old new pre @ ''df.plot()'' @ replace_all old new post"
    using replace_all_through_df_plot [OF assms(1)] by simp
  finally have "sublist ''df.plot()'' (replace_all old new s)"
    unfolding sublist_def by blast
  then show ?thesis using ne by (simp add: contains_iff str_replace_def)
qed

lemma replacement_loop_mono:
  "replacement_loop rs code corr = (code', corr') \<Longrightarrow> set corr \<subseteq> set corr'"
  using replacement_loop_entries [of rs code corr code' corr'] by auto

lemma replacement_loop_keeps:
  assumes "\<forall>(w, r) \<in> set rs. \<forall>s. contains t s \<longrightarrow> contains t (str_replace w r s)"
    and "contains t code"
    and "replacement_loop (rs @ [(t, r')]) code corr = (code', corr')"
  shows "code_fix t r' \<in> set corr'"
  using assms
proof (induction rs arbitrary: code corr)
  case Nil
  then show ?case by auto
next
  case (Cons p rs)
  obtain w r where p: "p = (w, r)" by (cases p)
  have rest: "\<forall>(w, r) \<in> set rs. \<forall>s. contains t s \<longrightarrow> contains t (str_replace w r s)"
    using Cons.prems(1) by simp
  show ?case
  proof (cases "contains w code")
    case True
    have "contains t (str_replace w r code)"
      using Cons.prems(1,2) p by simp
    moreover have "replacement_loop (rs @ [(t, r')]) (str_replace w r code)
        (corr @ [code_fix w r]) = (code', corr')"
      using Cons.prems(3) True p by simp
    ultimately show ?thesis using Cons.IH rest by blast
  next
    case False
    then have "replacement_loop (rs @ [(t, r')]) code corr = (code', corr')"
      using Cons.prems(3) p by simp
    then show ?thesis using Cons.IH rest Cons.prems(2) by blast
  qed
qed

lemma df_plot_logged:
  assumes "contains ''df.plot()'' code"
    and "replacement_loop replacements code [] = (replaced, fs)"
  shows "code_fix ''df.plot()'' ''df.plot()'' \<in> set fs"
proof -
  have "butlast replacements @ [(''df.plot()'', ''df.plot()'')] = replacements"
    by (simp add: replacements_def)
  then have "replacement_loop (butlast replacements @ [(''df.plot()'', ''df.plot()'')]) code []
      = replacement_loop replacements code []"
    by (rule arg_cong)
  then have loop: "replacement_loop (butlast replacements @ [(''df.plot()'', ''df.plot()'')])
      code [] = (replaced, fs)"
    using assms(2) by simp
  have "\<forall>(w, r) \<in> set (butlast replacements).
          \<forall>s. contains ''df.plot()'' s \<longrightarrow> contains ''df.plot()'' (str_replace w r s)"
    using df_plot_survives by blast
  then show ?thesis
    using assms(1) loop by (rule replacement_loop_keeps)
qed

text \<open>When no column name holds a backslash, the repair returns.\<close>

lemma parse_template_literal:
  "backslash \<notin> set r \<Longrightarrow> parse_template r = Inr (map Literal r)"
  by (induction r) auto

lemma foldl_keeps_member:
  "foldl (\<lambda>best item. if P item best then item else best) r rs \<in> set (r # rs)"
proof (induction rs arbitrary: r)
  case Nil
  show ?case by simp
next
  case (Cons x rs)
  show ?case
    using Cons.IH [of x] Cons.IH [of r] by (cases "P x r") auto
qed

lemma get_close_matches_member:
  assumes "get_close_matches word possibilities = close # others"
  shows "close \<in> set possibilities"
proof -
  let ?ok = "\<lambda>x. reaches_cutoff (real_quick_ratio x word)
                \<and> reaches_cutoff (quick_ratio x word) \<and> reaches_cutoff (ratio x word)"
  let ?result = "map (\<lambda>x. (ratio x word, x)) (filter ?ok possibilities)"
  show ?thesis
  proof (cases ?result)
    case Nil
    with assms show ?thesis by (simp add: get_close_matches_def Let_def)
  next
    case (Cons r rs)
    let ?best = "foldl (\<lambda>best item. if pair_greater item best then item else best) r rs"
    have "close = snd ?best"
      using assms Cons by (simp add: get_close_matches_def Let_def)
    moreover have "?best \<in> set ?result"
      unfolding Cons by (rule foldl_keeps_member)
    ultimately show ?thesis by auto
  qed
qed

lemma column_loop_returns:
  assumes "\<forall>c \<in> set cols. backslash \<notin> set c"
  shows "\<exists>result. column_loop cols ms code corr = Inr result"
proof (induction ms arbitrary: code corr)
  case Nil
  show ?case by simp
next
  case (Cons m ms)
  show ?case
  proof (cases "m \<in> set cols")
    case True
    then show ?thesis using Cons.IH by simp
  next
    case False
    show ?thesis
    proof (cases "get_close_matches m cols")
      case Nil
      then show ?thesis using False Cons.IH by simp
    next
      case (Cons close others)
      then have "close \<in> set cols" by (rule get_close_matches_member)
      then have "backslash \<notin> set (column_replacement close)"
        using assms by (auto simp: column_replacement_def apostrophe_def backslash_def)
      then have "re_sub_column m (column_replacement close) code
          = Inr (sub_refs m (map Literal (column_replacement close)) code)"
        by (simp add: re_sub_column_def parse_template_literal)
      then show ?thesis using False Cons Cons.IH by simp
    qed
  qed
qed

lemma auto_fix_returns:
  assumes "\<forall>c \<in> set (columns (h ! df self)). backslash \<notin> set c"
  shows "\<exists>fixed_code corrections.
           auto_fix_plot_code fix_code h self code = Inr (fixed_code, corrections)"
proof -
  obtain replaced fs where r: "replacement_loop replacements code [] = (replaced, fs)"
    by (cases "replacement_loop replacements code []")
  obtain result where "column_loop (columns (h ! df self)) (findall_columns replaced) replaced fs
      = Inr result"
    using column_loop_returns [OF assms] by blast
  then show ?thesis
    unfolding auto_fix_plot_code_def r by (cases result) (auto split: sum.splits)
qed


text \<open>The entries of the two loops are not entries of the formatting step.\<close>

lemma code_fix_not_format: "\<not> is_format_entry (code_fix wrong right)"
  by (simp add: is_format_entry_def code_fix_def)

lemma column_fix_not_format: "\<not> is_format_entry (column_fix col close)"
  by (simp add: is_format_entry_def column_fix_def)

lemma warning_not_format: "\<not> is_format_entry (column_warning col)"
  by (simp add: is_format_entry_def column_warning_def)

lemma column_loop_entries:
  assumes "column_loop cols ms code corr = Inr (code', corr')"
  shows "\<exists>es. corr' = corr @ es \<and> (\<forall>e \<in> set es. \<not> is_format_entry e)"
  using assms
proof (induction ms arbitrary: code corr)
  case Nil
  then show ?case by simp
next
  case (Cons m ms)
  show ?case
  proof (cases "m \<in> set cols")
    case True
    with Cons.prems have "column_loop cols ms code corr = Inr (code', corr')" by simp
    then show ?thesis by (rule Cons.IH)
  next
    case False
    show ?thesis
    proof (cases "get_close_matches m cols")
      case Nil
      with False Cons.prems
      have "column_loop cols ms code (corr @ [column_warning m]) = Inr (code', corr')" by simp
      from Cons.IH [OF this] obtain es where "corr' = (corr @ [column_warning m]) @ es"
        and "\<forall>e \<in> set es. \<not> is_format_entry e" by blast
      then have "corr' = corr @ (column_warning m # es)
          \<and> (\<forall>e \<in> set (column_warning m # es). \<not> is_format_entry e)"
        using warning_not_format by simp
      then show ?thesis by blast
    next
      case (Cons close others)
      with False Cons.prems obtain code2 where
        "column_loop cols ms code2 (corr @ [column_fix m close]) = Inr (code', corr')"
        by (auto split: sum.splits)
      from Cons.IH [OF this] obtain es where "corr' = (corr @ [column_fix m close]) @ es"
        and "\<forall>e \<in> set es. \<not> is_format_entry e" by blast
      then have "corr' = corr @ (column_fix m close # es)
          \<and> (\<forall>e \<in> set (column_fix m close # es). \<not> is_format_entry e)"
        using column_fix_not_format by simp
      then show ?thesis by blast
    qed
  qed
qed

lemma auto_fix_structure:
  assumes "auto_fix_plot_code fix_code h self code = Inr (fixed_code, corrections)"
  shows "\<exists>replaced fs earlier pre final.
           replacement_loop replacements code [] = (replaced, fs)
         \<and> corrections = earlier @ [final]
         \<and> set fs \<subseteq> set earlier
         \<and> (\<forall>e \<in> set earlier. \<not> is_format_entry e)
         \<and> ((fix_code pre = Inr fixed_code \<and> final = ''Code auto-formatted with autopep8'')
             \<or> (\<exists>m. fix_code pre = Inl m \<and> fixed_code = pre
                   \<and> final = ''Auto-formatting failed: '' @ m))"
proof -
  obtain replaced fs where r: "replacement_loop replacements code [] = (replaced, fs)"
    by (cases "replacement_loop replacements code []")
  from assms obtain pre earlier where
    loop: "column_loop (columns (h ! df self)) (findall_columns replaced) replaced fs
             = Inr (pre, earlier)"
    unfolding auto_fix_plot_code_def r by (auto split: sum.splits)
  obtain es where e: "earlier = fs @ es" and es: "\<forall>e \<in> set es. \<not> is_format_entry e"
    using column_loop_entries [OF loop] by blast
  obtain cs where "fs = [] @ cs" and "\<forall>e \<in> set cs. \<exists>w r. e = code_fix w r"
    using replacement_loop_entries [OF r] by blast
  then have "\<forall>e \<in> set fs. \<not> is_format_entry e"
    using code_fix_not_format by auto
  then have nf: "\<forall>e \<in> set earlier. \<not> is_format_entry e"
    using es unfolding e by auto
  have sub: "set fs \<subseteq> set earlier" unfolding e by simp
  show ?thesis
  proof (cases "fix_code pre")
    case (Inl m)
    then have "fixed_code = pre" and "corrections = earlier @ [''Auto-formatting failed: '' @ m]"
      using assms unfolding auto_fix_plot_code_def r by (simp_all add: loop)
    with r nf sub Inl show ?thesis by blast
  next
    case (Inr formatted)
    then have "fixed_code = formatted"
      and "corrections = earlier @ [''Code auto-formatted with autopep8'']"
      using assms unfolding auto_fix_plot_code_def r by (simp_all add: loop)
    with r nf sub Inr show ?thesis by blast
  qed
qed

text \<open>
  Claim C10. Whenever \<open>auto_fix_plot_code\<close> returns, and it does for every code string
  when no column name of the table holds a backslash, its corrections list is
  non-empty: its last entry, and no other, is the entry of the formatting step, which
  reads \<open>Code auto-formatted with autopep8\<close> when the formatter succeeded and
  \<open>Auto-formatting failed:\<close> with the message when it raised. Code that contains
  \<open>df.plot()\<close> gets the entry \<open>Code fix\<close> for it, although that replacement leaves every
  code string as it is.
\<close>

theorem auto_fix_always_logs_formatting:
  "((\<forall>c \<in> set (columns (h ! df self)). backslash \<notin> set c) \<longrightarrow>
      (\<exists>fixed_code corrections.
         auto_fix_plot_code fix_code h self code = Inr (fixed_code, corrections)))
   \<and> (\<forall>fixed_code corrections.
        auto_fix_plot_code fix_code h self code = Inr (fixed_code, corrections) \<longrightarrow>
          corrections \<noteq> []
        \<and> filter is_format_entry corrections = [last corrections]
        \<and> (\<exists>pre. (fix_code pre = Inr fixed_code
                     \<and> last corrections = ''Code auto-formatted with autopep8'')
                 \<or> (\<exists>m. fix_code pre = Inl m \<and> fixed_code = pre
                       \<and> last corrections = ''Auto-formatting failed: '' @ m))
        \<and> (contains ''df.plot()'' code \<longrightarrow>
              code_fix ''df.plot()'' ''df.plot()'' \<in> set corrections))
   \<and> str_replace ''df.plot()'' ''df.plot()'' code = code"
proof -
  have ret: "\<exists>fixed_code corrections.
         auto_fix_plot_code fix_code h self code = Inr (fixed_code, corrections)"
    if "\<forall>c \<in> set (columns (h ! df self)). backslash \<notin> set c"
    using that by (rule auto_fix_returns)
  have str: "corrections \<noteq> []
        \<and> filter is_format_entry corrections = [last corrections]
        \<and> (\<exists>pre. (fix_code pre = Inr fixed_code
                     \<and> last corrections = ''Code auto-formatted with autopep8'')
                 \<or> (\<exists>m. fix_code pre = Inl m \<and> fixed_code = pre
                       \<and> last corrections = ''Auto-formatting failed: '' @ m))
        \<and> (contains ''df.plot()'' code \<longrightarrow>
              code_fix ''df.plot()'' ''df.plot()'' \<in> set corrections)"
    if a: "auto_fix_plot_code fix_code h self code = Inr (fixed_code, corrections)"
    for fixed_code corrections
  proof -
    from auto_fix_structure [OF a] obtain replaced fs earlier pre final where
      r: "replacement_loop replacements code [] = (replaced, fs)"
      and c: "corrections = earlier @ [final]"
      and sub: "set fs \<subseteq> set earlier"
      and nf: "\<forall>e \<in> set earlier. \<not> is_format_entry e"
      and fin: "(fix_code pre = Inr fixed_code \<and> final = ''Code auto-formatted with autopep8'')
             \<or> (\<exists>m. fix_code pre = Inl m \<and> fixed_code = pre
                   \<and> final = ''Auto-formatting failed: '' @ m)"
      by blast
    have l: "last corrections = final" unfolding c by simp
    have isf: "is_format_entry final"
      using fin by (auto simp: is_format_entry_def)
    have "filter is_format_entry earlier = []"
      using nf by (simp add: filter_empty_conv)
    then have 2: "filter is_format_entry corrections = [last corrections]"
      unfolding l unfolding c using isf by simp
    have 3: "\<exists>pre. (fix_code pre = Inr fixed_code
                     \<and> last corrections = ''Code auto-formatted with autopep8'')
                 \<or> (\<exists>m. fix_code pre = Inl m \<and> fixed_code = pre
                       \<and> last corrections = ''Auto-formatting failed: '' @ m)"
      unfolding l using fin by blast
    have 4: "code_fix ''df.plot()'' ''df.plot()'' \<in> set corrections"
      if "contains ''df.plot()'' code"
      using df_plot_logged [OF that r] sub unfolding c by auto
    have 1: "corrections \<noteq> []" unfolding c by simp
    from 1 2 3 4 show ?thesis by blast
  qed
  from ret str str_replace_same show ?thesis by blast
qed


theorem auto_fix_always_logs_formatting_witness:
  "columns (player_team_store ! df (VisualizationUtils player_team_store 0)) = [''Player'', ''Team'']
   \<and> backslash \<notin> set ''Player'' \<and> backslash \<notin> set ''Team''
   \<and> contains ''df.plot()'' df_plot_code
   \<and> (\<exists>fixed_code corrections.
         auto_fix_plot_code keep_code player_team_store (VisualizationUtils player_team_store 0)
           df_plot_code = Inr (fixed_code, corrections)
         \<and> corrections \<noteq> []
         \<and> filter is_format_entry corrections = [last corrections]
         \<and> code_fix ''df.plot()'' ''df.plot()'' \<in> set corrections)
   \<and> auto_fix_plot_code keep_code player_team_store (VisualizationUtils player_team_store 0)
         df_plot_code
       = Inr (df_plot_code,
              [code_fix ''df.plot()'' ''df.plot()'', ''Code auto-formatted with autopep8''])
   \<and> auto_fix_plot_code failing_formatter player_team_store
         (VisualizationUtils player_team_store 0) plain_code
       = Inr (plain_code, [''Auto-formatting failed: boom''])"
proof -
  let ?self = "VisualizationUtils player_team_store 0"
  have b: "backslash \<notin> set ''Player''" "backslash \<notin> set ''Team''"
    by (simp_all add: backslash_def)
  then have nb: "\<forall>c \<in> set (columns (player_team_store ! df ?self)). backslash \<notin> set c"
    unfolding columns_player_team by simp
  have ct: "contains ''df.plot()'' df_plot_code"
    by (simp add: contains_def df_plot_code_def)
  note inst = auto_fix_always_logs_formatting [of player_team_store ?self keep_code df_plot_code]
  from inst nb obtain fixed_code corrections where
    a: "auto_fix_plot_code keep_code player_team_store ?self df_plot_code
          = Inr (fixed_code, corrections)"
    by blast
  with inst ct have "corrections \<noteq> []"
    and "filter is_format_entry corrections = [last corrections]"
    and "code_fix ''df.plot()'' ''df.plot()'' \<in> set corrections"
    by blast+
  with a have ex: "\<exists>fixed_code corrections.
         auto_fix_plot_code keep_code player_team_store ?self df_plot_code
           = Inr (fixed_code, corrections)
         \<and> corrections \<noteq> []
         \<and> filter is_format_entry corrections = [last corrections]
         \<and> code_fix ''df.plot()'' ''df.plot()'' \<in> set corrections"
    by blast
  have l1: "replacement_loop replacements df_plot_code []
      = (df_plot_code, [code_fix ''df.plot()'' ''df.plot()''])"
    by (simp add: replacements_def contains_def df_plot_code_def str_replace_same)
  have s1: "findall_columns df_plot_code = []"
    by (simp add: df_plot_code_def column_at_def)
  have e1: "auto_fix_plot_code keep_code player_team_store ?self df_plot_code
       = Inr (df_plot_code,
              [code_fix ''df.plot()'' ''df.plot()'', ''Code auto-formatted with autopep8''])"
    by (simp add: auto_fix_plot_code_def l1 s1 keep_code_def del: findall_columns.simps)
  have l2: "replacement_loop replacements plain_code [] = (plain_code, [])"
    by (rule replacement_loop_none) (simp add: replacements_def contains_def plain_code_def)
  have s2: "findall_columns plain_code = []"
    by (simp add: plain_code_def column_at_def)
  have e2: "auto_fix_plot_code failing_formatter player_team_store ?self plain_code
       = Inr (plain_code, [''Auto-formatting failed: boom''])"
    by (simp add: auto_fix_plot_code_def l2 s2 failing_formatter_def del: findall_columns.simps)
  from columns_player_team b ct ex e1 e2 show ?thesis by blast
qed

section \<open>Properties of the sandboxed executor\<close>








end
